theory Spec2Isabelle
  imports Complex_Main "HOL-Library.Multiset"
begin

section \<open>Core simulation entities (final\_project.py, part 1)\<close>

text \<open>Exceptions are values of \<open>py_error\<close>.\<close>

datatype py_error =
  IndexError | TypeError | ValueError | OverflowError | AttributeError | StatisticsError |
  JSONDecodeError

subsection \<open>Floats\<close>

text \<open>
  A Python float is a binary64 and is modelled as the real number it denotes.  Every float
  operation of the source is the exact operation followed by \<open>binary64\<close>, the
  rounding to the nearest binary64 with a tie going to the even significand: the exponent
  is that of the binade of \<open>x\<close>, not below that of the subnormals, and the
  significand has 53 bits.  Overflow to infinity, NaN and the sign of zero are outside the
  model.
\<close>

definition round_half_even :: "real \<Rightarrow> int" where
  "round_half_even x =
     (let f = \<lfloor>x\<rfloor>; d = x - of_int f in
      if d < 1/2 then f else if d > 1/2 then f + 1 else if even f then f else f + 1)"

definition binary64 :: "real \<Rightarrow> real" where
  "binary64 x =
     (if x = 0 then 0
      else let e = max \<lfloor>log 2 \<bar>x\<bar>\<rfloor> (- 1022);
               ulp = 2 powi (e - 52)
           in of_int (round_half_even (x / ulp)) * ulp)"

subsection \<open>Tasks and nodes\<close>

record task =
  tid :: nat
  work_units :: real
  created_at :: real
  completed_at :: "real option"

record node =
  nid :: nat
  speed :: real
  queue :: "task list"
  busy :: bool
  active :: bool
  completed :: nat

text \<open>\<open>Task.__init__\<close>; \<open>now\<close> is the value of \<open>time.time()\<close>.\<close>

definition Task_init :: "nat \<Rightarrow> real \<Rightarrow> real \<Rightarrow> task" where
  "Task_init i w now = \<lparr>tid = i, work_units = w, created_at = now, completed_at = None\<rparr>"

text \<open>\<open>Node.__init__\<close>: the scheduler back-reference is not a field here, the
  scheduler owns its nodes.\<close>

definition Node_init :: "nat \<Rightarrow> real \<Rightarrow> node" where
  "Node_init i sp =
     \<lparr>nid = i, speed = sp, queue = [], busy = False, active = True, completed = 0\<rparr>"

text \<open>\<open>Node.push\<close>: append at the back when active, drop otherwise.\<close>

definition push :: "task \<Rightarrow> node \<Rightarrow> node" where
  "push t n = (if active n then n\<lparr>queue := queue n @ [t]\<rparr> else n)"

definition queue_len :: "node \<Rightarrow> nat" where
  "queue_len n = length (queue n)"

text \<open>
  \<open>Node.steal_tasks\<close>.  The argument of \<open>range\<close> is
  \<open>min(amount, max(0, len(self.queue) - 1))\<close>, an integer that may be negative, in
  which case the loop body never runs.  Each iteration is \<open>deque.pop()\<close>, which
  raises \<open>IndexError\<close> on an empty deque.
\<close>

definition steal_range :: "int \<Rightarrow> task list \<Rightarrow> int" where
  "steal_range amount q = min amount (max 0 (int (length q) - 1))"

fun steal_loop :: "nat \<Rightarrow> task list \<Rightarrow> task list \<Rightarrow> py_error + (task list \<times> task list)" where
  "steal_loop 0 q stolen = Inr (q, stolen)"
| "steal_loop (Suc k) q stolen =
     (if q = [] then Inl IndexError
      else steal_loop k (butlast q) (stolen @ [last q]))"

definition steal_tasks :: "int \<Rightarrow> node \<Rightarrow> py_error + (task list \<times> node)" where
  "steal_tasks amount n =
     (if \<not> active n then Inr ([], n)
      else case steal_loop (nat (steal_range amount (queue n))) (queue n) [] of
             Inl e \<Rightarrow> Inl e
           | Inr (q', stolen) \<Rightarrow> Inr (stolen, n\<lparr>queue := q'\<rparr>))"

section \<open>The scheduler (final\_project.py, class Scheduler)\<close>

text \<open>
  The policy field holds whatever the control channel stored in it, so it is a JSON value;
  the three known policies are the strings \<open>round_robin\<close>, \<open>least_loaded\<close> and
  \<open>work_stealing\<close>.  A JSON object is the list of its key/value pairs, looked up by
  key; \<open>JFloat\<close> carries a finite float.
\<close>

datatype json =
    JNull
  | JBool bool
  | JInt int
  | JFloat real
  | JStr string
  | JArr "json list"
  | JObj "(string \<times> json) list"

text \<open>
  \<open>task_queue\<close> is the unbounded \<open>asyncio.Queue\<close> (front first).
  \<open>pending_puts\<close> holds the tasks of the \<open>task_queue.put(t)\<close> coroutines that
  \<open>asyncio.create_task\<close> has scheduled and the event loop has not run yet.
\<close>

record scheduler =
  policy :: json
  nodes :: "node list"
  task_queue :: "task list"
  pending_puts :: "task list"
  migrations :: nat
  latencies :: "real list"

definition Scheduler_init :: "nat \<Rightarrow> json \<Rightarrow> scheduler" where
  "Scheduler_init num_nodes pol =
     \<lparr>policy = pol,
      nodes = map (\<lambda>i. Node_init i (binary64 (1 + (if i = 0 then binary64 (2/10) else 0))))
                [0..<num_nodes],
      task_queue = [], pending_puts = [], migrations = 0, latencies = []\<rparr>"

text \<open>\<open>assign_task\<close>: put on the ingest queue.\<close>

definition assign_task :: "task \<Rightarrow> scheduler \<Rightarrow> scheduler" where
  "assign_task t s = s\<lparr>task_queue := task_queue s @ [t]\<rparr>"

text \<open>The event loop runs the scheduled \<open>put\<close> coroutines in the order of their creation;
  the queue is unbounded, so none of them waits.\<close>

definition run_pending_puts :: "scheduler \<Rightarrow> scheduler" where
  "run_pending_puts s = s\<lparr>task_queue := task_queue s @ pending_puts s, pending_puts := []\<rparr>"

text \<open>Nodes are referred to by their position in \<open>self.nodes\<close>.
  \<open>[n for n in self.nodes if n.active]\<close>:\<close>

definition active_nodes :: "scheduler \<Rightarrow> nat list" where
  "active_nodes s = filter (\<lambda>i. active (nodes s ! i)) [0..<length (nodes s)]"

text \<open>Python's \<open>min(xs, key=f)\<close> and \<open>max(xs, key=f)\<close>: a later element replaces the
  current one only when its key is strictly smaller (strictly larger); an empty argument
  raises \<open>ValueError\<close>.\<close>

fun min_loop :: "('a \<Rightarrow> nat) \<Rightarrow> 'a \<Rightarrow> 'a list \<Rightarrow> 'a" where
  "min_loop key best [] = best"
| "min_loop key best (x # xs) = min_loop key (if key x < key best then x else best) xs"

fun max_loop :: "('a \<Rightarrow> nat) \<Rightarrow> 'a \<Rightarrow> 'a list \<Rightarrow> 'a" where
  "max_loop key best [] = best"
| "max_loop key best (x # xs) = max_loop key (if key x > key best then x else best) xs"

definition py_min :: "('a \<Rightarrow> nat) \<Rightarrow> 'a list \<Rightarrow> py_error + 'a" where
  "py_min key xs = (case xs of [] \<Rightarrow> Inl ValueError | x # rest \<Rightarrow> Inr (min_loop key x rest))"

definition py_max :: "('a \<Rightarrow> nat) \<Rightarrow> 'a list \<Rightarrow> py_error + 'a" where
  "py_max key xs = (case xs of [] \<Rightarrow> Inl ValueError | x # rest \<Rightarrow> Inr (max_loop key x rest))"

definition push_at :: "nat \<Rightarrow> task \<Rightarrow> scheduler \<Rightarrow> scheduler" where
  "push_at i t s = s\<lparr>nodes := (nodes s)[i := push t (nodes s ! i)]\<rparr>"

text \<open>
  Target selection of \<open>assign_loop\<close> for a non-empty list \<open>act\<close> of active nodes;
  the result is the target and the new value of the loop's local \<open>rr_index\<close>.
\<close>

definition choose_target :: "nat \<Rightarrow> scheduler \<Rightarrow> nat list \<Rightarrow> py_error + (nat \<times> nat)" where
  "choose_target rr_index s act =
     (if policy s = JStr ''round_robin''
      then Inr (act ! (rr_index mod length act), rr_index + 1)
      else if policy s = JStr ''least_loaded'' \<or> policy s = JStr ''work_stealing''
      then (case py_min (\<lambda>i. queue_len (nodes s ! i)) act of
              Inl e \<Rightarrow> Inl e
            | Inr target \<Rightarrow> Inr (target, rr_index))
      else Inr (act ! 0, rr_index))"

text \<open>
  One iteration of \<open>assign_loop\<close>.  With an empty ingest queue the iteration waits in
  \<open>get\<close> (\<open>Blocked\<close>).  With no active node the task is put back after the sleep
  (\<open>Requeued\<close>).  Otherwise nothing is awaited between \<open>get\<close> and \<open>push\<close>.
\<close>

datatype assign_result = Blocked | Requeued | Placed nat

definition assign_step :: "nat \<Rightarrow> scheduler \<Rightarrow> py_error + (assign_result \<times> nat \<times> scheduler)" where
  "assign_step rr_index s =
     (case task_queue s of
        [] \<Rightarrow> Inr (Blocked, rr_index, s)
      | t # rest \<Rightarrow>
          let s1 = s\<lparr>task_queue := rest\<rparr>; act = active_nodes s1 in
          if act = [] then Inr (Requeued, rr_index, s1\<lparr>task_queue := task_queue s1 @ [t]\<rparr>)
          else (case choose_target rr_index s1 act of
                  Inl e \<Rightarrow> Inl e
                | Inr (target, rr') \<Rightarrow> Inr (Placed target, rr', push_at target t s1)))"

text \<open>\<open>for i, task in enumerate(stolen): idle_nodes[i % len(idle_nodes)].push(task)\<close>,
  from index \<open>i\<close> on.\<close>

fun distribute :: "nat list \<Rightarrow> nat \<Rightarrow> task list \<Rightarrow> node list \<Rightarrow> node list" where
  "distribute idle i [] ns = ns"
| "distribute idle i (t # ts) ns =
     distribute idle (Suc i) ts
       (ns[idle ! (i mod length idle) := push t (ns ! (idle ! (i mod length idle)))])"

text \<open>\<open>[n for n in active_nodes if n.queue_len() == 0]\<close>:\<close>

definition idle_nodes :: "scheduler \<Rightarrow> nat list" where
  "idle_nodes s = filter (\<lambda>i. queue_len (nodes s ! i) = 0) (active_nodes s)"

text \<open>One iteration of \<open>work_stealing_loop\<close>, after its sleep.\<close>

definition work_stealing_step :: "scheduler \<Rightarrow> py_error + scheduler" where
  "work_stealing_step s =
     (if policy s \<noteq> JStr ''work_stealing'' then Inr s
      else
        let act = active_nodes s;
            idle = idle_nodes s
        in case (if act \<noteq> [] then map_sum id Some (py_max (\<lambda>i. queue_len (nodes s ! i)) act)
                 else Inr None) of
             Inl e \<Rightarrow> Inl e
           | Inr None \<Rightarrow> Inr s
           | Inr (Some busiest) \<Rightarrow>
               if idle \<noteq> [] \<and> queue_len (nodes s ! busiest) > 1 then
                 let amount = max 1 (int (queue_len (nodes s ! busiest)) div 4) in
                 (case steal_tasks amount (nodes s ! busiest) of
                    Inl e \<Rightarrow> Inl e
                  | Inr (stolen, b') \<Rightarrow>
                      let ns = (nodes s)[busiest := b'] in
                      if stolen \<noteq> []
                      then Inr (s\<lparr>nodes := distribute idle 0 stolen ns,
                                  migrations := migrations s + length stolen\<rparr>)
                      else Inr (s\<lparr>nodes := ns\<rparr>))
               else Inr s)"

text \<open>\<open>report_completion\<close>.  The guard is Python truthiness: \<open>None\<close> and \<open>0.0\<close>
  are both false.  The latency is a float subtraction.\<close>

definition report_completion :: "task \<Rightarrow> scheduler \<Rightarrow> scheduler" where
  "report_completion t s =
     (case completed_at t of
        None \<Rightarrow> s
      | Some c \<Rightarrow>
          if c \<noteq> 0 \<and> created_at t \<noteq> 0 then
            let lats = latencies s @ [binary64 (c - created_at t)] in
            s\<lparr>latencies := (if length lats > 5000 then drop (length lats - 2000) lats else lats)\<rparr>
          else s)"

definition kill_node :: "int \<Rightarrow> scheduler \<Rightarrow> scheduler" where
  "kill_node i s =
     (if 0 \<le> i \<and> i < int (length (nodes s)) then
        let n = nodes s ! nat i; dead_tasks = queue n in
        s\<lparr>nodes := (nodes s)[nat i := n\<lparr>queue := [], active := False\<rparr>],
          pending_puts := pending_puts s @ dead_tasks\<rparr>
      else s)"

definition revive_node :: "int \<Rightarrow> scheduler \<Rightarrow> scheduler" where
  "revive_node i s =
     (if 0 \<le> i \<and> i < int (length (nodes s)) then
        s\<lparr>nodes := (nodes s)[nat i := (nodes s ! nat i)\<lparr>active := True\<rparr>]\<rparr>
      else s)"

subsection \<open>The node loop and the other coroutines\<close>

text \<open>
  \<open>Node.run\<close> for the node at position \<open>i\<close> of the fleet, in the two halves that the
  sleep separates.  \<open>node_take\<close>: an inactive node, or one with an empty queue, does
  nothing; otherwise the front task leaves the queue and the node is busy.
  \<open>node_complete\<close>, at clock reading \<open>now\<close>: the task is stamped, the node counts
  it and is no longer busy, and the completion is reported.
\<close>

definition node_take :: "nat \<Rightarrow> scheduler \<Rightarrow> task option \<times> scheduler" where
  "node_take i s =
     (let n = nodes s ! i in
      if \<not> active n then (None, s)
      else if queue n = [] then (None, s)
      else (Some (hd (queue n)),
            s\<lparr>nodes := (nodes s)[i := n\<lparr>queue := tl (queue n), busy := True\<rparr>]\<rparr>))"

definition node_complete :: "nat \<Rightarrow> task \<Rightarrow> real \<Rightarrow> scheduler \<Rightarrow> scheduler" where
  "node_complete i t now s =
     (let n = nodes s ! i in
      report_completion (t\<lparr>completed_at := Some now\<rparr>)
        (s\<lparr>nodes := (nodes s)[i := n\<lparr>completed := completed n + 1, busy := False\<rparr>]\<rparr>))"

text \<open>
  The event loop as \<open>assign_loop\<close> sees it.  \<open>Dispatch\<close> is one iteration of the
  loop, or the loop still waiting in \<open>get\<close> when the ingest queue is empty.
  \<open>Env f\<close> is what the other coroutines (generator, nodes, stealing loop, command
  handlers) do to the scheduler between two iterations.  The result lists, for every
  iteration that took a task, what it did and the scheduler before and after it.
\<close>

datatype event = Dispatch | Env "scheduler \<Rightarrow> scheduler"

fun run_events ::
  "event list \<Rightarrow> nat \<Rightarrow> scheduler \<Rightarrow>
   py_error + ((assign_result \<times> scheduler \<times> scheduler) list \<times> nat \<times> scheduler)" where
  "run_events [] rr_index s = Inr ([], rr_index, s)"
| "run_events (Env f # es) rr_index s = run_events es rr_index (f s)"
| "run_events (Dispatch # es) rr_index s =
     (case assign_step rr_index s of
        Inl e \<Rightarrow> Inl e
      | Inr (Blocked, rr', s') \<Rightarrow> run_events es rr' s'
      | Inr (r, rr', s') \<Rightarrow>
          (case run_events es rr' s' of
             Inl e \<Rightarrow> Inl e
           | Inr (tr, rr'', s'') \<Rightarrow> Inr ((r, s, s') # tr, rr'', s'')))"

subsection \<open>Snapshot\<close>

text \<open>The process-wide \<open>SimState\<close>; the CSV file and its writer are not modelled.\<close>

record SimState =
  recording :: bool
  scenario_active :: bool

text \<open>The dictionary that \<open>snapshot\<close> returns, one field per key.\<close>

record snapshot_frame =
  timestamp :: real
  snap_policy :: json
  queue_lengths :: "nat list"
  node_status :: "bool list"
  snap_completed :: "nat list"
  snap_migrations :: nat
  avg_latency :: real
  p95_latency :: real
  utilization :: real
  snap_recording :: bool
  snap_scenario_active :: bool

text \<open>\<open>statistics.mean\<close> raises on an empty argument; otherwise it sums exactly and
  rounds the quotient once.\<close>

definition mean :: "real list \<Rightarrow> py_error + real" where
  "mean xs =
     (if xs = [] then Inl StatisticsError
      else Inr (binary64 (sum_list xs / real (length xs))))"

text \<open>Indexing a list with a nonnegative index.\<close>

definition list_index :: "'a list \<Rightarrow> nat \<Rightarrow> py_error + 'a" where
  "list_index xs i = (if i < length xs then Inr (xs ! i) else Inl IndexError)"

text \<open>Python's \<open>round(x, ndigits)\<close> of a float: the exact value of \<open>x\<close> goes to the
  nearest multiple of \<open>10 ** -ndigits\<close>, a tie going to the even one, and the result is
  the float nearest to that decimal.\<close>

definition py_round :: "real \<Rightarrow> nat \<Rightarrow> real" where
  "py_round x ndigits = binary64 (of_int (round_half_even (x * 10 ^ ndigits)) / 10 ^ ndigits)"

text \<open>
  \<open>Scheduler.snapshot\<close>; \<open>now\<close> is the value of \<open>time.time()\<close>.  The result is
  the frame together with the scheduler as the call leaves it.  \<open>int(len * 0.95)\<close> is
  the floor of the product.  \<open>recent_lats\<close> is the first local of the method:
  \<open>self.latencies[-50:] if self.latencies else [0]\<close>.  The utilization is an integer
  division giving a float, then a float multiplication.
\<close>

definition recent_lats :: "scheduler \<Rightarrow> real list" where
  "recent_lats s =
     (if latencies s \<noteq> [] then drop (length (latencies s) - 50) (latencies s) else [0])"

definition snapshot :: "real \<Rightarrow> SimState \<Rightarrow> scheduler \<Rightarrow> py_error + (snapshot_frame \<times> scheduler)" where
  "snapshot now g s =
     (let recent = recent_lats s
      in case (if recent \<noteq> [] then mean recent else Inr 0) of
           Inl e \<Rightarrow> Inl e
         | Inr avg_lat \<Rightarrow>
      (case (if recent \<noteq> []
             then list_index (sort recent) (nat \<lfloor>real (length recent) * (95/100)\<rfloor>)
             else Inr 0) of
           Inl e \<Rightarrow> Inl e
         | Inr p95 \<Rightarrow>
      (let active_count = length (filter active (nodes s));
           busy_count = length (filter (\<lambda>n. active n \<and> busy n) (nodes s));
           util = (if active_count > 0
                   then binary64 (binary64 (real busy_count / real active_count) * 100)
                   else 0)
       in Inr (\<lparr>timestamp = now,
                 snap_policy = policy s,
                 queue_lengths = map queue_len (nodes s),
                 node_status = map active (nodes s),
                 snap_completed = map completed (nodes s),
                 snap_migrations = migrations s,
                 avg_latency = py_round avg_lat 3,
                 p95_latency = py_round p95 3,
                 utilization = py_round util 1,
                 snap_recording = recording g,
                 snap_scenario_active = scenario_active g\<rparr>, s))))"

section \<open>Workload generator and control surface (parts 2 to 4)\<close>

record WorkloadGenerator =
  gen_tid :: nat
  manual_burst :: bool
  rate_low :: real
  rate_high :: real

definition set_rate :: "real \<Rightarrow> real \<Rightarrow> WorkloadGenerator \<Rightarrow> WorkloadGenerator" where
  "set_rate low high g = g\<lparr>rate_low := low, rate_high := high\<rparr>"

definition trigger_burst :: "WorkloadGenerator \<Rightarrow> WorkloadGenerator" where
  "trigger_burst g = g\<lparr>manual_burst := True\<rparr>"

text \<open>\<open>toggle_recording\<close>, without its file operations.\<close>

definition toggle_recording :: "SimState \<Rightarrow> SimState" where
  "toggle_recording st = st\<lparr>recording := \<not> recording st\<rparr>"

text \<open>
  The process-wide state the command handler works on: the two globals, \<open>sim_state\<close>,
  the set of connected clients, and the number of \<open>run_scenario_logic\<close> coroutines that
  \<open>start_scenario\<close> commands have spawned.
\<close>

record world =
  global_scheduler :: scheduler
  global_workload :: WorkloadGenerator
  sim_state :: SimState
  clients :: "nat set"
  scenarios_spawned :: nat

text \<open>The state that \<open>main\<close> sets up before any client connects:
  \<open>NODES_COUNT = 4\<close>, \<open>DEFAULT_POLICY = "work_stealing"\<close>, the generator and
  \<open>SimState\<close> as their constructors leave them.\<close>

definition WorkloadGenerator_init :: WorkloadGenerator where
  "WorkloadGenerator_init =
     \<lparr>gen_tid = 0, manual_burst = False,
      rate_low = binary64 (3/10), rate_high = binary64 (8/10)\<rparr>"

definition SimState_init :: SimState where
  "SimState_init = \<lparr>recording = False, scenario_active = False\<rparr>"

definition main_init :: world where
  "main_init =
     \<lparr>global_scheduler = Scheduler_init 4 (JStr ''work_stealing''),
      global_workload = WorkloadGenerator_init,
      sim_state = SimState_init,
      clients = {},
      scenarios_spawned = 0\<rparr>"

text \<open>\<open>data.get(key)\<close> and \<open>data.get(key, default)\<close> on a decoded object; Python's
  \<open>None\<close> is \<open>JNull\<close>.\<close>

definition dict_get :: "(string \<times> json) list \<Rightarrow> string \<Rightarrow> json" where
  "dict_get d k = (case map_of d k of None \<Rightarrow> JNull | Some v \<Rightarrow> v)"

definition dict_get_default :: "(string \<times> json) list \<Rightarrow> string \<Rightarrow> json \<Rightarrow> json" where
  "dict_get_default d k dflt = (case map_of d k of None \<Rightarrow> dflt | Some v \<Rightarrow> v)"

text \<open>
  The builtins \<open>int(v)\<close> and \<open>float(v)\<close> on a decoded JSON value.  How a string is
  read as a number is a parameter (\<open>None\<close>: the string is rejected).  \<open>int\<close> of a
  float truncates towards zero; \<open>float\<close> of an integer rounds it to a float and raises
  beyond the double range.
\<close>

definition py_int :: "(string \<Rightarrow> int option) \<Rightarrow> json \<Rightarrow> py_error + int" where
  "py_int int_of_str v =
     (case v of
        JNull \<Rightarrow> Inl TypeError
      | JBool b \<Rightarrow> Inr (if b then 1 else 0)
      | JInt i \<Rightarrow> Inr i
      | JFloat r \<Rightarrow> Inr (if 0 \<le> r then \<lfloor>r\<rfloor> else \<lceil>r\<rceil>)
      | JStr str \<Rightarrow> (case int_of_str str of None \<Rightarrow> Inl ValueError | Some i \<Rightarrow> Inr i)
      | JArr _ \<Rightarrow> Inl TypeError
      | JObj _ \<Rightarrow> Inl TypeError)"

definition py_float :: "(string \<Rightarrow> real option) \<Rightarrow> json \<Rightarrow> py_error + real" where
  "py_float float_of_str v =
     (case v of
        JNull \<Rightarrow> Inl TypeError
      | JBool b \<Rightarrow> Inr (if b then 1 else 0)
      | JInt i \<Rightarrow>
          (if \<bar>i\<bar> \<ge> 2 ^ 1024 - 2 ^ 970 then Inl OverflowError else Inr (binary64 (of_int i)))
      | JFloat r \<Rightarrow> Inr r
      | JStr str \<Rightarrow> (case float_of_str str of None \<Rightarrow> Inl ValueError | Some r \<Rightarrow> Inr r)
      | JArr _ \<Rightarrow> Inl TypeError
      | JObj _ \<Rightarrow> Inl TypeError)"

text \<open>
  The body of the \<open>async for\<close> loop of \<open>ws_handler\<close> for one message.  \<open>loads\<close>
  is \<open>json.loads\<close>.  Of a value that is not an object, \<open>data.get\<close> raises
  \<open>AttributeError\<close>.
\<close>

definition on_message ::
  "(string \<Rightarrow> py_error + json) \<Rightarrow> (string \<Rightarrow> int option) \<Rightarrow> (string \<Rightarrow> real option) \<Rightarrow>
   string \<Rightarrow> world \<Rightarrow> py_error + world" where
  "on_message loads int_of_str float_of_str message w =
     (case loads message of
        Inl e \<Rightarrow> Inl e
      | Inr (JObj d) \<Rightarrow>
          (let cmd = dict_get d ''cmd'' in
           if cmd = JStr ''burst''
           then Inr (w\<lparr>global_workload := trigger_burst (global_workload w)\<rparr>)
           else if cmd = JStr ''policy''
           then Inr (w\<lparr>global_scheduler := (global_scheduler w)\<lparr>policy := dict_get d ''val''\<rparr>\<rparr>)
           else if cmd = JStr ''kill''
           then (case py_int int_of_str (dict_get d ''id'') of
                   Inl e \<Rightarrow> Inl e
                 | Inr i \<Rightarrow> Inr (w\<lparr>global_scheduler := kill_node i (global_scheduler w)\<rparr>))
           else if cmd = JStr ''revive''
           then (case py_int int_of_str (dict_get d ''id'') of
                   Inl e \<Rightarrow> Inl e
                 | Inr i \<Rightarrow> Inr (w\<lparr>global_scheduler := revive_node i (global_scheduler w)\<rparr>))
           else if cmd = JStr ''toggle_record''
           then Inr (w\<lparr>sim_state := toggle_recording (sim_state w)\<rparr>)
           else if cmd = JStr ''start_scenario''
           then Inr (w\<lparr>scenarios_spawned := scenarios_spawned w + 1\<rparr>)
           else if cmd = JStr ''hello'' then Inr w
           else if cmd = JStr ''download'' then Inr w
           else if cmd = JStr ''set_rate''
           then (case py_float float_of_str (dict_get_default d ''low'' (JFloat (binary64 (3/10)))) of
                   Inl e \<Rightarrow> Inl e
                 | Inr low \<Rightarrow>
                     (case py_float float_of_str (dict_get_default d ''high'' (JFloat (binary64 (8/10)))) of
                        Inl e \<Rightarrow> Inl e
                      | Inr high \<Rightarrow>
                          Inr (w\<lparr>global_workload := set_rate low high (global_workload w)\<rparr>)))
           else Inr w)
      | Inr _ \<Rightarrow> Inl AttributeError)"

text \<open>
  The \<open>async for\<close> loop inside \<open>try\<close>: the first exception leaves the loop, and the
  messages after it are never read.  The result is the list of unread messages and the
  state.
\<close>

fun message_loop ::
  "(string \<Rightarrow> py_error + json) \<Rightarrow> (string \<Rightarrow> int option) \<Rightarrow> (string \<Rightarrow> real option) \<Rightarrow>
   string list \<Rightarrow> world \<Rightarrow> string list \<times> world" where
  "message_loop loads int_of_str float_of_str [] w = ([], w)"
| "message_loop loads int_of_str float_of_str (m # ms) w =
     (case on_message loads int_of_str float_of_str m w of
        Inl e \<Rightarrow> (ms, w)
      | Inr w' \<Rightarrow> message_loop loads int_of_str float_of_str ms w')"

text \<open>\<open>ws_handler\<close> for connection \<open>ws\<close> and the messages the client sends on it.\<close>

definition ws_handler ::
  "(string \<Rightarrow> py_error + json) \<Rightarrow> (string \<Rightarrow> int option) \<Rightarrow> (string \<Rightarrow> real option) \<Rightarrow>
   nat \<Rightarrow> string list \<Rightarrow> world \<Rightarrow> string list \<times> world" where
  "ws_handler loads int_of_str float_of_str ws messages w =
     (case message_loop loads int_of_str float_of_str messages (w\<lparr>clients := insert ws (clients w)\<rparr>) of
        (unread, w') \<Rightarrow> (unread, w'\<lparr>clients := clients w' - {ws}\<rparr>))"

section \<open>Rounding\<close>

lemma round_half_even_cases:
  "round_half_even x = \<lfloor>x\<rfloor> \<or> round_half_even x = \<lfloor>x\<rfloor> + 1"
  by (simp add: round_half_even_def Let_def)

lemma round_half_even_of_int [simp]: "round_half_even (of_int k) = k"
  by (simp add: round_half_even_def Let_def)

lemma round_half_even_lower: "of_int k \<le> x \<Longrightarrow> k \<le> round_half_even x"
proof -
  assume "of_int k \<le> x"
  then have "k \<le> \<lfloor>x\<rfloor>" by (simp add: le_floor_iff)
  with round_half_even_cases [of x] show ?thesis by auto
qed

lemma round_half_even_upper: "x \<le> of_int k \<Longrightarrow> round_half_even x \<le> k"
proof -
  assume a: "x \<le> of_int k"
  then have fl: "\<lfloor>x\<rfloor> \<le> k" by (simp add: floor_le_iff) linarith?
  show ?thesis
  proof (cases "\<lfloor>x\<rfloor> = k")
    case True
    then have "of_int k \<le> x" using of_int_floor_le [of x] by simp
    with a have "x = of_int k" by simp
    then show ?thesis by simp
  next
    case False
    with fl have "\<lfloor>x\<rfloor> + 1 \<le> k" by simp
    with round_half_even_cases [of x] show ?thesis by auto
  qed
qed

lemma two_powr_powi: "(2::real) powr of_int k = 2 powi k"
  by (simp add: powr_real_of_int power_int_def inverse_eq_divide power_one_over)

lemma floor_log2_eq:
  assumes "2 powi e \<le> \<bar>x\<bar>" and "\<bar>x\<bar> < 2 powi (e + 1)"
  shows "\<lfloor>log 2 \<bar>x\<bar>\<rfloor> = e"
proof -
  have "0 < (2::real) powi e" by simp
  then have pos: "0 < \<bar>x\<bar>"
    using assms(1) by linarith
  have "2 powr of_int e \<le> \<bar>x\<bar> \<and> \<bar>x\<bar> < 2 powr (of_int e + 1)"
    using assms two_powr_powi [of e] two_powr_powi [of "e + 1"] by simp
  then show ?thesis
    using floor_log_eq_powr_iff [OF pos, of 2 e] by simp
qed

lemma floor_log2_bounds:
  assumes "x \<noteq> 0"
  shows "2 powi \<lfloor>log 2 \<bar>x\<bar>\<rfloor> \<le> \<bar>x\<bar> \<and> \<bar>x\<bar> < 2 powi (\<lfloor>log 2 \<bar>x\<bar>\<rfloor> + 1)"
proof -
  have pos: "0 < \<bar>x\<bar>" using assms by simp
  have "2 powr of_int \<lfloor>log 2 \<bar>x\<bar>\<rfloor> \<le> \<bar>x\<bar> \<and> \<bar>x\<bar> < 2 powr (of_int \<lfloor>log 2 \<bar>x\<bar>\<rfloor> + 1)"
    using floor_log_eq_powr_iff [OF pos, of 2 "\<lfloor>log 2 \<bar>x\<bar>\<rfloor>"] by simp
  then show ?thesis
    using two_powr_powi [of "\<lfloor>log 2 \<bar>x\<bar>\<rfloor>"] two_powr_powi [of "\<lfloor>log 2 \<bar>x\<bar>\<rfloor> + 1"] by simp
qed

lemma binary64_eval:
  assumes "2 powi e \<le> \<bar>x\<bar>" and "\<bar>x\<bar> < 2 powi (e + 1)" and "- 1022 \<le> e"
  shows "binary64 x = of_int (round_half_even (x / 2 powi (e - 52))) * 2 powi (e - 52)"
proof -
  have "0 < (2::real) powi e" by simp
  then have "0 < \<bar>x\<bar>"
    using assms(1) by linarith
  then have "x \<noteq> 0" by simp
  moreover have "max \<lfloor>log 2 \<bar>x\<bar>\<rfloor> (- 1022) = e"
    using floor_log2_eq [OF assms(1,2)] assms(3) by simp
  ultimately show ?thesis
    by (simp add: binary64_def Let_def)
qed

lemma binary64_exact:
  assumes "2 powi e \<le> \<bar>x\<bar>" and "\<bar>x\<bar> < 2 powi (e + 1)" and "- 1022 \<le> e"
      and "x / 2 powi (e - 52) = of_int m"
  shows "binary64 x = x"
proof -
  have "binary64 x = of_int m * 2 powi (e - 52)"
    using binary64_eval [OF assms(1-3)] assms(4) by simp
  also have "\<dots> = x"
    using assms(4) by (simp add: field_simps)
  finally show ?thesis .
qed

lemma binary64_zero [simp]: "binary64 0 = 0"
  by (simp add: binary64_def)

lemma binary64_nonneg: "0 \<le> x \<Longrightarrow> 0 \<le> binary64 x"
proof -
  assume x: "0 \<le> x"
  have "0 \<le> of_int (round_half_even (x / u)) * u" if "0 < u" for u :: real
  proof -
    from x that have "of_int 0 \<le> x / u" by simp
    then have "0 \<le> round_half_even (x / u)" by (rule round_half_even_lower)
    with that show ?thesis by simp
  qed
  then show ?thesis
    by (simp add: binary64_def Let_def)
qed

lemma binary64_nonpos: "x \<le> 0 \<Longrightarrow> binary64 x \<le> 0"
proof -
  assume x: "x \<le> 0"
  have "of_int (round_half_even (x / u)) * u \<le> 0" if "0 < u" for u :: real
  proof -
    from x that have "x / u \<le> of_int 0" by (simp add: divide_nonpos_pos)
    then have "round_half_even (x / u) \<le> 0" by (rule round_half_even_upper)
    with that show ?thesis by (simp add: mult_le_0_iff)
  qed
  then show ?thesis
    by (simp add: binary64_def Let_def)
qed

lemma binary64_le:
  assumes c: "2 powi e \<le> c" "c < 2 powi (e + 1)" "- 1022 \<le> e" "c / 2 powi (e - 52) = of_int m"
      and xc: "x \<le> c"
  shows "binary64 x \<le> c"
proof (cases "x \<le> 0")
  case True
  have "0 < (2::real) powi e" by simp
  with c(1) have "0 \<le> c" by linarith
  with binary64_nonpos [OF True] show ?thesis by linarith
next
  case False
  then have xpos: "0 < x" by simp
  then have xne: "x \<noteq> 0" by simp
  define ex where "ex = max \<lfloor>log 2 \<bar>x\<bar>\<rfloor> (- 1022)"
  define u where "u = (2::real) powi (ex - 52)"
  have upos: "0 < u" by (simp add: u_def)
  have bx: "binary64 x = of_int (round_half_even (x / u)) * u"
    using xne by (simp add: binary64_def Let_def ex_def u_def)
  have lx: "\<bar>x\<bar> < 2 powi (\<lfloor>log 2 \<bar>x\<bar>\<rfloor> + 1)" and gx: "2 powi \<lfloor>log 2 \<bar>x\<bar>\<rfloor> \<le> \<bar>x\<bar>"
    using floor_log2_bounds [OF xne] by simp_all
  have fle: "\<lfloor>log 2 \<bar>x\<bar>\<rfloor> \<le> e"
  proof (rule ccontr)
    assume "\<not> \<lfloor>log 2 \<bar>x\<bar>\<rfloor> \<le> e"
    then have "e + 1 \<le> \<lfloor>log 2 \<bar>x\<bar>\<rfloor>" by simp
    then have "(2::real) powi (e + 1) \<le> 2 powi \<lfloor>log 2 \<bar>x\<bar>\<rfloor>"
      by (intro power_int_increasing) simp_all
    with gx c(2) xc xpos show False by simp
  qed
  then have exle: "ex \<le> e" using c(3) by (simp add: ex_def)
  show ?thesis
  proof (cases "ex = e")
    case True
    have "x / u \<le> c / u"
      using xc upos by (simp add: divide_right_mono)
    also have "c / u = of_int m"
      using c(4) True by (simp add: u_def)
    finally have "x / u \<le> of_int m" .
    then have "round_half_even (x / u) \<le> m" by (rule round_half_even_upper)
    then have "of_int (round_half_even (x / u)) * u \<le> of_int m * u"
      using upos by simp
    also have "of_int m * u = c"
      using c(4) True by (simp add: u_def field_simps)
    finally show ?thesis by (simp add: bx)
  next
    case False
    with exle have lt: "ex + 1 \<le> e" by simp
    have "\<lfloor>log 2 \<bar>x\<bar>\<rfloor> + 1 \<le> ex + 1" by (simp add: ex_def)
    then have "(2::real) powi (\<lfloor>log 2 \<bar>x\<bar>\<rfloor> + 1) \<le> 2 powi (ex + 1)"
      by (intro power_int_increasing) simp_all
    with lx xpos have xl: "x < 2 powi (ex + 1)" by simp
    have split: "(2::real) powi (ex + 1) = of_int (2 ^ 53) * u"
      by (simp add: u_def power_int_diff power_int_add)
    then have "x / u < of_int (2 ^ 53)"
      using xl upos by (simp add: pos_divide_less_eq)
    then have "x / u \<le> of_int (2 ^ 53)" by simp
    then have "round_half_even (x / u) \<le> 2 ^ 53" by (rule round_half_even_upper)
    then have "of_int (round_half_even (x / u)) \<le> (of_int (2 ^ 53) :: real)"
      by (simp only: of_int_le_iff)
    then have "of_int (round_half_even (x / u)) * u \<le> of_int (2 ^ 53) * u"
      using upos by (simp only: mult_le_cancel_right_pos)
    also have "\<dots> = 2 powi (ex + 1)" by (simp only: split)
    also have "\<dots> \<le> 2 powi e"
      using lt by (intro power_int_increasing) simp_all
    also have "\<dots> \<le> c" by (rule c(1))
    finally show ?thesis by (simp add: bx)
  qed
qed

lemma binary64_le_1: "x \<le> 1 \<Longrightarrow> binary64 x \<le> 1"
  by (rule binary64_le [where e = 0 and m = "2 ^ 52"]) simp_all

lemma binary64_le_100: "x \<le> 100 \<Longrightarrow> binary64 x \<le> 100"
  by (rule binary64_le [where e = 6 and m = "100 * 2 ^ 46"]) simp_all

lemma binary64_1 [simp]: "binary64 1 = 1"
  by (rule binary64_exact [where e = 0 and m = "2 ^ 52"]) simp_all

lemma binary64_neg_1 [simp]: "binary64 (- 1) = - 1"
  by (rule binary64_exact [where e = 0 and m = "- (2 ^ 52)"]) simp_all

lemma binary64_3_2 [simp]: "binary64 (3/2) = 3/2"
  by (rule binary64_exact [where e = 0 and m = "3 * 2 ^ 51"]) simp_all

lemma binary64_3 [simp]: "binary64 3 = 3"
  by (rule binary64_exact [where e = 1 and m = "3 * 2 ^ 51"]) simp_all

text \<open>
  Three computations of the kind the source makes, where the float result is not the exact
  one: a latency \<open>1.0 - 2 ** -60\<close> is \<open>1.0\<close>; \<open>float(2 ** 53 + 1)\<close> is
  \<open>2 ** 53\<close>; and 23 busy nodes of 80 give \<open>23 / 80 * 100 = 28.749999999999996\<close>,
  which \<open>round(., 1)\<close> takes to the float \<open>28.7\<close>, while the exact quotient 28.75
  would go to 28.8.
\<close>

lemma binary64_sub_example: "binary64 (1 - 1 / 2 ^ 60) = 1"
  by (simp add: binary64_eval [where e = "- 1"] round_half_even_def Let_def)

lemma binary64_int_example: "binary64 (2 ^ 53 + 1) = 2 ^ 53"
  by (simp add: binary64_eval [where e = 53] round_half_even_def Let_def)

lemma binary64_23_80: "binary64 (23 / 80) = 5179139571476070 / 2 ^ 54"
  by (simp add: binary64_eval [where e = "- 2"] round_half_even_def Let_def)

lemma binary64_23_80_100: "binary64 (binary64 (23 / 80) * 100) = 8092405580431359 / 2 ^ 48"
  by (simp add: binary64_23_80 binary64_eval [where e = 4] round_half_even_def Let_def)

section \<open>Stealing from a node\<close>

lemma steal_loop_take_drop:
  "k \<le> length q \<Longrightarrow>
   steal_loop k q stolen =
     Inr (take (length q - k) q, stolen @ rev (drop (length q - k) q))"
proof (induction k arbitrary: q stolen)
  case 0
  then show ?case by simp
next
  case (Suc k)
  then have ne: "q \<noteq> []" by auto
  from Suc.prems have kb: "k \<le> length (butlast q)" by simp
  have tk: "take (length (butlast q) - k) (butlast q) = take (length q - Suc k) q"
    by (simp add: butlast_conv_take min_def)
  have "drop (length q - Suc k) q = drop (length q - Suc k) (butlast q @ [last q])"
    using ne by simp
  also have "\<dots> = drop (length q - Suc k) (butlast q) @ [last q]"
    using Suc.prems by simp
  finally have dr: "rev (drop (length q - Suc k) q) =
      last q # rev (drop (length (butlast q) - k) (butlast q))"
    by simp
  show ?case
    using ne Suc.IH [OF kb, of "stolen @ [last q]"] tk dr by simp
qed

lemma steal_range_le: "nat (steal_range amount q) \<le> length q"
  by (simp add: steal_range_def)

lemma steal_tasks_eq:
  "steal_tasks amount n =
     (if active n
      then Inr (rev (drop (length (queue n) - nat (steal_range amount (queue n))) (queue n)),
                n\<lparr>queue := take (length (queue n) - nat (steal_range amount (queue n))) (queue n)\<rparr>)
      else Inr ([], n))"
  by (simp add: steal_tasks_def steal_loop_take_drop [OF steal_range_le])

text \<open>
  C1 (as amended).  An inactive node returns nothing and is unchanged.  On an active node
  with a queue of length \<open>L\<close> the call cannot raise; it removes exactly
  \<open>k = max(0, min(amount, max(0, L - 1)))\<close> tasks from the back and returns them
  back first, so the old queue is the retained queue followed by the reversed result: the
  retained queue is the original front prefix of length \<open>L - k\<close>.  When the queue
  was not empty the node keeps \<open>max(1, L - k)\<close> tasks, at least one; an empty queue
  stays empty.  For a nonnegative amount \<open>k\<close> is \<open>min(amount, max(0, L - 1))\<close>.
\<close>

theorem steal_tasks_spec:
  "(\<not> active n \<longrightarrow> steal_tasks amount n = Inr ([], n)) \<and>
   (active n \<longrightarrow>
      (\<exists>stolen q'.
          steal_tasks amount n = Inr (stolen, n\<lparr>queue := q'\<rparr>) \<and>
          queue n = q' @ rev stolen \<and>
          length stolen = nat (min amount (max 0 (int (length (queue n)) - 1))) \<and>
          length q' = length (queue n) - length stolen \<and>
          (queue n \<noteq> [] \<longrightarrow>
             1 \<le> length q' \<and> length q' = max 1 (length (queue n) - length stolen)) \<and>
          (queue n = [] \<longrightarrow> stolen = [] \<and> q' = []) \<and>
          (0 \<le> amount \<longrightarrow>
             int (length stolen) = min amount (max 0 (int (length (queue n)) - 1)))))"
proof (intro conjI impI)
  assume "\<not> active n"
  then show "steal_tasks amount n = Inr ([], n)"
    by (simp add: steal_tasks_eq)
next
  assume act: "active n"
  define L where "L = length (queue n)"
  define k where "k = nat (steal_range amount (queue n))"
  define stolen where "stolen = rev (drop (L - k) (queue n))"
  define q' where "q' = take (L - k) (queue n)"
  have kL: "k \<le> L"
    unfolding k_def L_def by (rule steal_range_le)
  have keq: "k = nat (min amount (max 0 (int L - 1)))"
    by (simp add: k_def steal_range_def L_def)
  have r: "steal_tasks amount n = Inr (stolen, n\<lparr>queue := q'\<rparr>)"
    using act by (simp add: steal_tasks_eq stolen_def q'_def L_def k_def)
  have a: "queue n = q' @ rev stolen"
    by (simp add: stolen_def q'_def)
  have ls: "length stolen = k"
    using kL by (simp add: stolen_def L_def)
  have lq: "length q' = L - k"
    by (simp add: q'_def L_def)
  have pos: "L \<noteq> 0 \<Longrightarrow> 1 \<le> L - k"
    unfolding keq by (cases "0 \<le> amount") (auto simp: min_def max_def)
  have nonneg: "0 \<le> amount \<Longrightarrow> int k = min amount (max 0 (int L - 1))"
    unfolding keq by simp
  have empty: "L = 0 \<Longrightarrow> stolen = [] \<and> q' = []"
    by (simp add: stolen_def q'_def L_def)
  show "\<exists>stolen q'.
          steal_tasks amount n = Inr (stolen, n\<lparr>queue := q'\<rparr>) \<and>
          queue n = q' @ rev stolen \<and>
          length stolen = nat (min amount (max 0 (int (length (queue n)) - 1))) \<and>
          length q' = length (queue n) - length stolen \<and>
          (queue n \<noteq> [] \<longrightarrow>
             1 \<le> length q' \<and> length q' = max 1 (length (queue n) - length stolen)) \<and>
          (queue n = [] \<longrightarrow> stolen = [] \<and> q' = []) \<and>
          (0 \<le> amount \<longrightarrow>
             int (length stolen) = min amount (max 0 (int (length (queue n)) - 1)))"
  proof (intro exI conjI impI)
    show "steal_tasks amount n = Inr (stolen, n\<lparr>queue := q'\<rparr>)" by (rule r)
    show "queue n = q' @ rev stolen" by (rule a)
    show "length stolen = nat (min amount (max 0 (int (length (queue n)) - 1)))"
      using ls keq by (simp add: L_def)
    show "length q' = length (queue n) - length stolen"
      using lq ls by (simp add: L_def)
    show "1 \<le> length q'" if "queue n \<noteq> []"
      using that pos lq by (simp add: L_def)
    show "length q' = max 1 (length (queue n) - length stolen)" if "queue n \<noteq> []"
      using that pos lq ls by (simp add: L_def)
    show "stolen = []" if "queue n = []"
      using that empty by (simp add: L_def)
    show "q' = []" if "queue n = []"
      using that empty by (simp add: L_def)
    show "int (length stolen) = min amount (max 0 (int (length (queue n)) - 1))"
      if "0 \<le> amount"
      using that nonneg ls by (simp add: L_def)
  qed
qed

text \<open>Witness for C1: two of three queued tasks are stolen, youngest first.\<close>

theorem steal_tasks_spec_witness:
  "steal_tasks 2
     \<lparr>nid = 0, speed = 1, queue =
        [\<lparr>tid = 1, work_units = 1/2, created_at = 10, completed_at = None\<rparr>,
         \<lparr>tid = 2, work_units = 1/2, created_at = 11, completed_at = None\<rparr>,
         \<lparr>tid = 3, work_units = 1/2, created_at = 12, completed_at = None\<rparr>],
       busy = False, active = True, completed = 0\<rparr>
   = Inr ([\<lparr>tid = 3, work_units = 1/2, created_at = 12, completed_at = None\<rparr>,
           \<lparr>tid = 2, work_units = 1/2, created_at = 11, completed_at = None\<rparr>],
          \<lparr>nid = 0, speed = 1, queue =
             [\<lparr>tid = 1, work_units = 1/2, created_at = 10, completed_at = None\<rparr>],
            busy = False, active = True, completed = 0\<rparr>)"
  using steal_tasks_spec [of
     "\<lparr>nid = 0, speed = 1, queue =
        [\<lparr>tid = 1, work_units = 1/2, created_at = 10, completed_at = None\<rparr>,
         \<lparr>tid = 2, work_units = 1/2, created_at = 11, completed_at = None\<rparr>,
         \<lparr>tid = 3, work_units = 1/2, created_at = 12, completed_at = None\<rparr>],
       busy = False, active = True, completed = 0\<rparr>" 2]
  by (simp add: steal_tasks_def steal_range_def numeral_2_eq_2)

text \<open>
  Counterexample to C1 as stated: an active node with an empty queue (\<open>L = 0\<close>) keeps
  zero tasks after \<open>steal(1)\<close>, not \<open>max(1, L - k') = 1\<close>.
\<close>

theorem steal_tasks_empty_counterexample:
  "active (Node_init 0 1) \<and>
   steal_tasks 1 (Node_init 0 1) = Inr ([], Node_init 0 1) \<and>
   int (length (queue (Node_init 0 1))) \<noteq>
     max 1 (int (length (queue (Node_init 0 1)))
             - min 1 (max 0 (int (length (queue (Node_init 0 1))) - 1)))"
  by (simp add: steal_tasks_def steal_range_def Node_init_def)

section \<open>Killing and reviving nodes\<close>

lemma sum_list_map_update:
  fixes f :: "'a \<Rightarrow> 'b::cancel_comm_monoid_add"
  shows "i < length xs \<Longrightarrow>
         sum_list (map f (xs[i := y])) + f (xs ! i) = sum_list (map f xs) + f y"
proof (induction xs arbitrary: i)
  case Nil
  then show ?case by simp
next
  case (Cons x xs)
  then show ?case by (cases i) (auto simp: ac_simps)
qed

lemma kill_node_conserves:
  assumes "0 \<le> i" and "i < int (length (nodes s))"
  shows "mset (task_queue (kill_node i s)) + mset (pending_puts (kill_node i s)) +
           (\<Sum>n\<leftarrow>nodes (kill_node i s). mset (queue n)) =
         mset (task_queue s) + mset (pending_puts s) + (\<Sum>n\<leftarrow>nodes s. mset (queue n))"
proof -
  from assms have lt: "nat i < length (nodes s)" by linarith
  show ?thesis
    using assms
      sum_list_map_update [OF lt, of "\<lambda>n. mset (queue n)"
        "(nodes s ! nat i)\<lparr>queue := [], active := False\<rparr>"]
    by (simp add: kill_node_def Let_def ac_simps)
qed

text \<open>
  C2.  For a node id in range, \<open>kill_node\<close> marks that node inactive and empties its
  queue, leaves every other node and every other scheduler field alone, and schedules one
  \<open>put\<close> for each drained task: the scheduled puts grow by exactly the drained queue, the
  event loop then appends them to the ingest queue, and the multiset of all queued tasks
  (ingest queue, scheduled puts, node queues) is the same before and after.  For a node id
  out of range, \<open>kill_node\<close> and \<open>revive_node\<close> return the scheduler unchanged.
\<close>

theorem kill_node_spec:
  "(0 \<le> i \<and> i < int (length (nodes s)) \<longrightarrow>
      length (nodes (kill_node i s)) = length (nodes s) \<and>
      nodes (kill_node i s) ! nat i = (nodes s ! nat i)\<lparr>queue := [], active := False\<rparr> \<and>
      \<not> active (nodes (kill_node i s) ! nat i) \<and>
      queue (nodes (kill_node i s) ! nat i) = [] \<and>
      (\<forall>j. j < length (nodes s) \<and> j \<noteq> nat i \<longrightarrow> nodes (kill_node i s) ! j = nodes s ! j) \<and>
      pending_puts (kill_node i s) = pending_puts s @ queue (nodes s ! nat i) \<and>
      mset (pending_puts (kill_node i s)) - mset (pending_puts s) = mset (queue (nodes s ! nat i)) \<and>
      task_queue (run_pending_puts (kill_node i s)) =
         task_queue s @ pending_puts s @ queue (nodes s ! nat i) \<and>
      mset (task_queue (kill_node i s)) + mset (pending_puts (kill_node i s)) +
           (\<Sum>n\<leftarrow>nodes (kill_node i s). mset (queue n)) =
         mset (task_queue s) + mset (pending_puts s) + (\<Sum>n\<leftarrow>nodes s. mset (queue n)) \<and>
      task_queue (kill_node i s) = task_queue s \<and>
      policy (kill_node i s) = policy s \<and>
      migrations (kill_node i s) = migrations s \<and>
      latencies (kill_node i s) = latencies s)
   \<and> (\<not> (0 \<le> i \<and> i < int (length (nodes s))) \<longrightarrow> kill_node i s = s \<and> revive_node i s = s)"
proof (cases "0 \<le> i \<and> i < int (length (nodes s))")
  case True
  then have "nat i < length (nodes s)" by linarith
  with True kill_node_conserves [of i s] show ?thesis
    by (simp add: kill_node_def run_pending_puts_def Let_def)
next
  case False
  have "kill_node i s = s" "revive_node i s = s"
    using False by (auto simp: kill_node_def revive_node_def)
  with False show ?thesis by blast
qed

text \<open>Witness for C2: node 0 of a two-node fleet holds two tasks and is killed; id 5 and
  id -1 are out of range.\<close>

theorem kill_node_spec_witness:
  "pending_puts (kill_node 0
      ((Scheduler_init 2 (JStr ''least_loaded''))
        \<lparr>nodes := [(Node_init 0 (12/10))\<lparr>queue := [Task_init 7 (1/2) 100, Task_init 8 (1/2) 101]\<rparr>,
                   Node_init 1 1]\<rparr>))
     = [Task_init 7 (1/2) 100, Task_init 8 (1/2) 101] \<and>
   nodes (kill_node 0
      ((Scheduler_init 2 (JStr ''least_loaded''))
        \<lparr>nodes := [(Node_init 0 (12/10))\<lparr>queue := [Task_init 7 (1/2) 100, Task_init 8 (1/2) 101]\<rparr>,
                   Node_init 1 1]\<rparr>))
     = [(Node_init 0 (12/10))\<lparr>active := False\<rparr>, Node_init 1 1] \<and>
   kill_node 5 (Scheduler_init 2 (JStr ''least_loaded'')) = Scheduler_init 2 (JStr ''least_loaded'') \<and>
   revive_node (- 1) (Scheduler_init 2 (JStr ''least_loaded'')) = Scheduler_init 2 (JStr ''least_loaded'')"
  using kill_node_spec [of 0
      "(Scheduler_init 2 (JStr ''least_loaded''))
        \<lparr>nodes := [(Node_init 0 (12/10))\<lparr>queue := [Task_init 7 (1/2) 100, Task_init 8 (1/2) 101]\<rparr>,
                   Node_init 1 1]\<rparr>"]
    kill_node_spec [of 5 "Scheduler_init 2 (JStr ''least_loaded'')"]
    kill_node_spec [of "- 1" "Scheduler_init 2 (JStr ''least_loaded'')"]
  by (simp add: kill_node_def Scheduler_init_def Node_init_def numeral_2_eq_2)

section \<open>Completion bookkeeping\<close>

lemma report_completion_bound:
  "length (latencies s) \<le> 5000 \<Longrightarrow> length (latencies (report_completion t s)) \<le> 5000"
  by (simp add: report_completion_def Let_def split: option.splits)

text \<open>The only call of \<open>report_completion\<close> is the one at the end of \<open>Node.run\<close>, with
  the task just stamped with the clock reading \<open>now\<close>.\<close>

lemma node_complete_latencies:
  "now \<noteq> 0 \<Longrightarrow> created_at t \<noteq> 0 \<Longrightarrow>
   latencies (node_complete i t now s) =
     (if length (latencies s @ [binary64 (now - created_at t)]) > 5000
      then drop (length (latencies s @ [binary64 (now - created_at t)]) - 2000)
             (latencies s @ [binary64 (now - created_at t)])
      else latencies s @ [binary64 (now - created_at t)])"
  by (simp add: node_complete_def report_completion_def Let_def)

text \<open>
  C7.  The timestamps of a task are clock readings of \<open>time.time()\<close>, seconds since the
  epoch, and so are not zero.  For a completed task with such timestamps
  \<open>report_completion\<close> appends the latency, the float difference
  \<open>completed_at - created_at\<close>, to the window and, whenever the window then holds more
  than 5000 entries, cuts it to exactly its most recent 2000; nothing else in the scheduler
  changes, and after the call the window holds at most 5000 latencies.
\<close>

theorem report_completion_spec:
  "completed_at t = Some c \<Longrightarrow> c \<noteq> 0 \<Longrightarrow> created_at t \<noteq> 0 \<Longrightarrow>
   report_completion t s =
     s\<lparr>latencies :=
         (if length (latencies s @ [binary64 (c - created_at t)]) > 5000
          then drop (length (latencies s @ [binary64 (c - created_at t)]) - 2000)
                 (latencies s @ [binary64 (c - created_at t)])
          else latencies s @ [binary64 (c - created_at t)])\<rparr> \<and>
   (length (latencies s) + 1 > 5000 \<longrightarrow> length (latencies (report_completion t s)) = 2000) \<and>
   last (latencies (report_completion t s)) = binary64 (c - created_at t) \<and>
   length (latencies (report_completion t s)) \<le> 5000"
  by (simp add: report_completion_def Let_def)

text \<open>Witness for C7: a task created at time 100 and completed at time 103.\<close>

theorem report_completion_spec_witness:
  "latencies (report_completion ((Task_init 1 (1/2) 100)\<lparr>completed_at := Some 103\<rparr>)
       ((Scheduler_init 4 (JStr ''work_stealing''))\<lparr>latencies := [2]\<rparr>)) = [2, 3]"
  using report_completion_spec [of "(Task_init 1 (1/2) 100)\<lparr>completed_at := Some 103\<rparr>" 103
       "(Scheduler_init 4 (JStr ''work_stealing''))\<lparr>latencies := [2]\<rparr>"]
  by (simp add: Task_init_def)

text \<open>
  C9.  A task whose completion time is unset leaves the scheduler, and so the latency
  window, as it was.
\<close>

theorem report_completion_unset:
  "completed_at t = None \<Longrightarrow>
   report_completion t s = s \<and> latencies (report_completion t s) = latencies s"
  by (simp add: report_completion_def)

text \<open>Witness for C9: a freshly created task.\<close>

theorem report_completion_unset_witness:
  "latencies (report_completion (Task_init 1 (1/2) 100)
       ((Scheduler_init 4 (JStr ''work_stealing''))\<lparr>latencies := [2]\<rparr>)) = [2]"
  using report_completion_unset [of "Task_init 1 (1/2) 100"
       "(Scheduler_init 4 (JStr ''work_stealing''))\<lparr>latencies := [2]\<rparr>"]
  by (simp add: Task_init_def)

section \<open>Node identities\<close>

text \<open>
  The constructor numbers the nodes by position, and no operation of the scheduler changes a
  node's identity or the length of the fleet: in every reachable state the identity of a
  node is its position in \<open>self.nodes\<close>.
\<close>

lemma Scheduler_init_nid: "map nid (nodes (Scheduler_init n p)) = [0..<n]"
  by (simp add: Scheduler_init_def Node_init_def comp_def)

lemma map_nid_update:
  assumes "nid y = nid (ns ! x)"
  shows "map nid (ns[x := y]) = map nid ns"
proof (cases "x < length ns")
  case True
  with assms have "map nid (ns[x := y]) = (map nid ns)[x := map nid ns ! x]"
    by (simp add: map_update)
  then show ?thesis by (simp only: list_update_id)
next
  case False
  then have "length ns \<le> x" by simp
  then show ?thesis by (simp only: list_update_beyond)
qed

lemma nid_push [simp]: "nid (push t n) = nid n"
  by (simp add: push_def)

lemma push_at_nid: "map nid (nodes (push_at i t s)) = map nid (nodes s)"
  by (simp add: push_at_def map_nid_update)

lemma kill_node_nid: "map nid (nodes (kill_node i s)) = map nid (nodes s)"
  by (simp add: kill_node_def Let_def map_nid_update)

lemma revive_node_nid: "map nid (nodes (revive_node i s)) = map nid (nodes s)"
  by (simp add: revive_node_def map_nid_update)

lemma assign_step_nid:
  "assign_step rr s = Inr (r, rr', s') \<Longrightarrow> map nid (nodes s') = map nid (nodes s)"
  by (auto simp: assign_step_def Let_def push_at_nid split: list.splits if_splits sum.splits)

lemma distribute_nid: "map nid (distribute idle i ts ns) = map nid ns"
  by (induction ts arbitrary: i ns) (simp_all add: map_nid_update)

lemma work_stealing_step_nid:
  "work_stealing_step s = Inr s' \<Longrightarrow> map nid (nodes s') = map nid (nodes s)"
  by (auto simp: work_stealing_step_def Let_def steal_tasks_eq distribute_nid map_nid_update
      split: if_splits sum.splits option.splits)

section \<open>Placement\<close>

lemma min_loop_mem: "min_loop key b xs \<in> set (b # xs)"
  by (induction xs arbitrary: b) auto

lemma min_loop_le: "y \<in> set (b # xs) \<Longrightarrow> key (min_loop key b xs) \<le> key y"
proof (induction xs arbitrary: b y)
  case Nil
  then show ?case by simp
next
  case (Cons x xs)
  have step: "key (min_loop key (if key x < key b then x else b) xs)
                \<le> key (if key x < key b then x else b)"
    using Cons.IH [where y = "if key x < key b then x else b"
                     and b = "if key x < key b then x else b"] by simp
  from Cons.prems consider "y = b" | "y = x" | "y \<in> set xs" by auto
  then show ?case
  proof cases
    case 1
    with step show ?thesis by (simp split: if_splits)
  next
    case 2
    with step show ?thesis by (simp split: if_splits)
  next
    case 3
    then show ?thesis
      using Cons.IH [where y = y and b = "if key x < key b then x else b"] by simp
  qed
qed

lemma min_loop_first:
  fixes b :: "'a::linorder"
  shows "sorted_wrt (<) (b # xs) \<Longrightarrow> y \<in> set (b # xs) \<Longrightarrow>
         key y \<le> key (min_loop key b xs) \<Longrightarrow> min_loop key b xs \<le> y"
proof (induction xs arbitrary: b y)
  case Nil
  then show ?case by simp
next
  case (Cons x xs)
  let ?b' = "if key x < key b then x else b"
  let ?r = "min_loop key ?b' xs"
  have bx: "b < x" using Cons.prems(1) by simp
  have srt: "sorted_wrt (<) (?b' # xs)"
    using Cons.prems(1) by auto
  have rle: "key ?r \<le> key ?b'"
    by (rule min_loop_le) simp
  have r_eq: "min_loop key b (x # xs) = ?r" by simp
  from Cons.prems(2) consider "y = b" | "y = x" | "y \<in> set xs" by auto
  then show ?case
  proof cases
    case 1
    show ?thesis
    proof (cases "key x < key b")
      case True
      with rle Cons.prems(3) 1 show ?thesis by simp
    next
      case False
      then have "?r \<le> b"
        using Cons.IH [OF srt, of b] Cons.prems(3) 1 by simp
      with 1 r_eq show ?thesis by simp
    qed
  next
    case 2
    show ?thesis
    proof (cases "key x < key b")
      case True
      then have "?r \<le> x"
        using Cons.IH [OF srt, of x] Cons.prems(3) 2 by simp
      with 2 r_eq show ?thesis by simp
    next
      case False
      have "key b \<le> key ?r"
        using False Cons.prems(3) 2 by simp
      then have "?r \<le> b"
        using Cons.IH [OF srt, of b] False by simp
      with bx 2 r_eq show ?thesis by simp
    qed
  next
    case 3
    then have "?r \<le> y"
      using Cons.IH [OF srt, of y] Cons.prems(3) by simp
    with r_eq show ?thesis by simp
  qed
qed

lemma active_nodes_sorted: "sorted_wrt (<) (active_nodes s)"
  by (simp add: active_nodes_def sorted_wrt_filter)

lemma set_active_nodes: "set (active_nodes s) = {i. i < length (nodes s) \<and> active (nodes s ! i)}"
  by (auto simp: active_nodes_def)

lemma active_nodes_task_queue [simp]: "active_nodes (s\<lparr>task_queue := q\<rparr>) = active_nodes s"
  by (simp add: active_nodes_def)

lemma py_min_active:
  assumes "active_nodes s \<noteq> []"
  shows "\<exists>target. py_min key (active_nodes s) = Inr target \<and>
           target \<in> set (active_nodes s) \<and>
           (\<forall>j\<in>set (active_nodes s). key target \<le> key j) \<and>
           (\<forall>j\<in>set (active_nodes s). key j \<le> key target \<longrightarrow> target \<le> j)"
proof -
  from assms obtain b xs where bx: "active_nodes s = b # xs"
    by (cases "active_nodes s") auto
  have srt: "sorted_wrt (<) (b # xs)"
    using active_nodes_sorted [of s] bx by simp
  show ?thesis
    unfolding bx py_min_def
    using min_loop_mem [of key b xs] min_loop_le [of _ b xs key] min_loop_first [OF srt, of _ key]
    by auto
qed

text \<open>
  C3.  Under \<open>least_loaded\<close> or \<open>work_stealing\<close>, an iteration of the placement loop
  that takes task \<open>t\<close> while some node is active never raises and pushes \<open>t\<close> onto an
  active node whose queue, before the push, is no longer than that of any active node; among
  the active nodes of that minimal length the target has the smallest position in the fleet,
  which is the smallest identity when every node's identity is its position, as the
  constructor makes it.
\<close>

theorem least_loaded_placement:
  assumes pol: "policy s = JStr ''least_loaded'' \<or> policy s = JStr ''work_stealing''"
      and tq: "task_queue s = t # rest"
      and act: "\<exists>i<length (nodes s). active (nodes s ! i)"
  shows "\<exists>target.
           assign_step rr_index s =
             Inr (Placed target, rr_index, push_at target t (s\<lparr>task_queue := rest\<rparr>)) \<and>
           target < length (nodes s) \<and> active (nodes s ! target) \<and>
           (\<forall>j<length (nodes s). active (nodes s ! j) \<longrightarrow>
                queue_len (nodes s ! target) \<le> queue_len (nodes s ! j)) \<and>
           (\<forall>j<length (nodes s). active (nodes s ! j) \<and>
                queue_len (nodes s ! j) = queue_len (nodes s ! target) \<longrightarrow> target \<le> j) \<and>
           ((\<forall>i<length (nodes s). nid (nodes s ! i) = i) \<longrightarrow>
              (\<forall>j<length (nodes s). active (nodes s ! j) \<and>
                queue_len (nodes s ! j) = queue_len (nodes s ! target) \<longrightarrow>
                nid (nodes s ! target) \<le> nid (nodes s ! j))) \<and>
           queue (nodes (push_at target t (s\<lparr>task_queue := rest\<rparr>)) ! target) =
             queue (nodes s ! target) @ [t]"
proof -
  from act have ne: "active_nodes s \<noteq> []"
    using set_active_nodes [of s] by (metis (mono_tags, lifting) empty_iff empty_set mem_Collect_eq)
  from py_min_active [OF ne, of "\<lambda>i. queue_len (nodes s ! i)"]
  obtain target where
    pm: "py_min (\<lambda>i. queue_len (nodes s ! i)) (active_nodes s) = Inr target" and
    mem: "target \<in> set (active_nodes s)" and
    le: "\<forall>j\<in>set (active_nodes s). queue_len (nodes s ! target) \<le> queue_len (nodes s ! j)" and
    first: "\<forall>j\<in>set (active_nodes s).
              queue_len (nodes s ! j) \<le> queue_len (nodes s ! target) \<longrightarrow> target \<le> j"
    by blast
  from pol have nrr: "policy s \<noteq> JStr ''round_robin''" by auto
  have step: "assign_step rr_index s =
      Inr (Placed target, rr_index, push_at target t (s\<lparr>task_queue := rest\<rparr>))"
    using pol nrr tq ne pm by (auto simp: assign_step_def choose_target_def Let_def)
  from mem have tl: "target < length (nodes s)" and ta: "active (nodes s ! target)"
    by (simp_all add: set_active_nodes)
  have q: "queue (nodes (push_at target t (s\<lparr>task_queue := rest\<rparr>)) ! target) =
             queue (nodes s ! target) @ [t]"
    using tl ta by (simp add: push_at_def push_def)
  show ?thesis
    using step tl ta le first q by (auto simp: set_active_nodes)
qed

text \<open>Witness for C3: nodes 1 and 3 are idle and active, node 2 is down, node 0 holds a
  task; the new task goes to node 1.\<close>

theorem least_loaded_placement_witness:
  "assign_step 0
     \<lparr>policy = JStr ''least_loaded'',
      nodes = [(Node_init 0 (12/10))\<lparr>queue := [Task_init 1 (1/2) 100]\<rparr>,
               Node_init 1 1,
               (Node_init 2 1)\<lparr>active := False\<rparr>,
               Node_init 3 1],
      task_queue = [Task_init 2 (1/2) 101], pending_puts = [], migrations = 0, latencies = []\<rparr>
   = Inr (Placed 1, 0,
     \<lparr>policy = JStr ''least_loaded'',
      nodes = [(Node_init 0 (12/10))\<lparr>queue := [Task_init 1 (1/2) 100]\<rparr>,
               (Node_init 1 1)\<lparr>queue := [Task_init 2 (1/2) 101]\<rparr>,
               (Node_init 2 1)\<lparr>active := False\<rparr>,
               Node_init 3 1],
      task_queue = [], pending_puts = [], migrations = 0, latencies = []\<rparr>)"
proof -
  let ?s = "\<lparr>policy = JStr ''least_loaded'',
      nodes = [(Node_init 0 (12/10))\<lparr>queue := [Task_init 1 (1/2) 100]\<rparr>,
               Node_init 1 1,
               (Node_init 2 1)\<lparr>active := False\<rparr>,
               Node_init 3 1],
      task_queue = [Task_init 2 (1/2) 101], pending_puts = [], migrations = 0, latencies = []\<rparr>"
  have h1: "policy ?s = JStr ''least_loaded'' \<or> policy ?s = JStr ''work_stealing''" by simp
  have h2: "task_queue ?s = Task_init 2 (1/2) 101 # []" by simp
  have h3: "\<exists>i<length (nodes ?s). active (nodes ?s ! i)"
    by (rule exI [of _ 0]) (simp add: Node_init_def)
  show ?thesis
    using least_loaded_placement [OF h1 h2 h3, of 0]
    by (simp add: assign_step_def choose_target_def active_nodes_def py_min_def
          push_at_def push_def queue_len_def Node_init_def numeral_eq_Suc)
qed

section \<open>Round-robin placement\<close>

lemma active_push [simp]: "active (push t n) = active n"
  by (simp add: push_def)

lemma active_nodes_push_at [simp]: "active_nodes (push_at i t s) = active_nodes s"
proof -
  have "active ((nodes s)[i := push t (nodes s ! i)] ! x) = active (nodes s ! x)"
    if "x < length (nodes s)" for x
    using that by (cases "x = i") simp_all
  then show ?thesis
    unfolding active_nodes_def push_at_def
    by (auto intro!: filter_cong)
qed

lemma active_nodes_distinct: "distinct (active_nodes s)"
  by (simp add: active_nodes_def)

lemma rr_step:
  assumes "policy s = JStr ''round_robin''" and "task_queue s = t # rest"
      and "active_nodes s \<noteq> []"
  shows "assign_step rr s =
           Inr (Placed (active_nodes s ! (rr mod length (active_nodes s))), Suc rr,
                push_at (active_nodes s ! (rr mod length (active_nodes s))) t
                  (s\<lparr>task_queue := rest\<rparr>))"
  using assms by (simp add: assign_step_def choose_target_def Let_def)

lemma mod_zero_shift:
  fixes n p X :: nat
  assumes "0 < n" "p < n"
  shows "((X + n - p) mod n = 0) = (X mod n = p)"
proof -
  have "p \<le> X + n" using assms by simp
  then have "((X + n) mod n = p mod n) = (n dvd X + n - p)"
    by (rule mod_eq_dvd_iff_nat)
  then show ?thesis using assms by (auto simp: mod_eq_0_iff_dvd)
qed

lemma count_mod_upto:
  fixes n p X :: nat
  assumes "0 < n" "p < n"
  shows "length (filter (\<lambda>j. j mod n = p) [0..<X]) = (X + n - 1 - p) div n"
proof (induction X)
  case 0
  from assms show ?case by simp
next
  case (Suc X)
  have e: "Suc X + n - 1 - p = Suc (X + n - 1 - p)" using assms by simp
  have e2: "Suc (X + n - 1 - p) = X + n - p" using assms by simp
  show ?case
  proof (cases "X mod n = p")
    case True
    then have "(X + n - p) mod n = 0" using mod_zero_shift [OF assms, of X] by simp
    then have "(X + n - p) div n = Suc ((X + n - 1 - p) div n)"
      using div_Suc [of "X + n - 1 - p" n] e2 by simp
    with True Suc show ?thesis by (simp add: e e2)
  next
    case False
    then have "(X + n - p) mod n \<noteq> 0" using mod_zero_shift [OF assms, of X] by simp
    then have "(X + n - p) div n = (X + n - 1 - p) div n"
      using div_Suc [of "X + n - 1 - p" n] e2 by simp
    with False Suc show ?thesis by (simp add: e e2)
  qed
qed

lemma div_add_bounds:
  fixes x M n :: nat
  assumes "0 < n"
  shows "x div n + M div n \<le> (x + M) div n \<and> (x + M) div n \<le> x div n + M div n + 1"
proof -
  have "x mod n + M mod n < 2 * n"
    using assms mod_less_divisor [of n x] mod_less_divisor [of n M] by linarith
  then have "(x mod n + M mod n) div n < 2"
    by (rule less_mult_imp_div_less)
  then show ?thesis
    using div_add1_eq [of x M n] by simp
qed

lemma count_window:
  fixes n p r M :: nat
  assumes "0 < n" "p < n"
  shows "length (filter (\<lambda>k. (r + k) mod n = p) [0..<M]) =
           (r + M + n - 1 - p) div n - (r + n - 1 - p) div n"
proof -
  have "length (filter (\<lambda>k. (r + k) mod n = p) [0..<M]) =
        length (filter (\<lambda>j. j mod n = p) (map (\<lambda>k. r + k) [0..<M]))"
    by (simp add: filter_map comp_def)
  also have "map (\<lambda>k. r + k) [0..<M] = [r..<r + M]"
    by (simp add: map_add_upt add.commute)
  also have "length (filter (\<lambda>j. j mod n = p) [r..<r + M]) =
      length (filter (\<lambda>j. j mod n = p) [0..<r + M]) - length (filter (\<lambda>j. j mod n = p) [0..<r])"
    using upt_add_eq_append [of 0 r M] by simp
  finally show ?thesis
    by (simp add: count_mod_upto [OF assms])
qed

lemma count_window_bounds:
  fixes n p r M :: nat
  assumes "0 < n" "p < n"
  shows "M div n \<le> length (filter (\<lambda>k. (r + k) mod n = p) [0..<M]) \<and>
         length (filter (\<lambda>k. (r + k) mod n = p) [0..<M]) \<le> M div n + 1"
proof -
  have e: "r + M + n - 1 - p = (r + n - 1 - p) + M" using assms by simp
  show ?thesis
    unfolding count_window [OF assms] e
    using div_add_bounds [OF assms(1), of "r + n - 1 - p" M] by linarith
qed

lemma count_placed:
  assumes "distinct act" "p < length act"
  shows "count_list (map (\<lambda>k. Placed (act ! ((r + k) mod length act))) [0..<M]) (Placed (act ! p))
         = length (filter (\<lambda>k. (r + k) mod length act = p) [0..<M])"
proof -
  have n: "0 < length act" using assms(2) by (cases act) simp_all
  have "(Placed (act ! p) = Placed (act ! ((r + k) mod length act))) = ((r + k) mod length act = p)"
    for k
    using assms n nth_eq_iff_index_eq [OF assms(1), of p "(r + k) mod length act"]
    by auto
  then show ?thesis
    by (simp add: count_list_eq_length_filter filter_map comp_def)
qed


lemma map_update_same:
  assumes "f y = f (ns ! x)"
  shows "map f (ns[x := y]) = map f ns"
proof (cases "x < length ns")
  case True
  with assms have "map f (ns[x := y]) = (map f ns)[x := map f ns ! x]"
    by (simp add: map_update)
  then show ?thesis by (simp only: list_update_id)
next
  case False
  then have "length ns \<le> x" by simp
  then show ?thesis by (simp only: list_update_beyond)
qed

lemma active_nodes_cong:
  assumes "map active (nodes s') = map active (nodes s)"
  shows "active_nodes s' = active_nodes s"
proof -
  have l: "length (nodes s') = length (nodes s)"
    using assms by (rule map_eq_imp_length_eq)
  have "active (nodes s' ! i) = active (nodes s ! i)" if "i < length (nodes s)" for i
  proof -
    have "map active (nodes s') ! i = map active (nodes s) ! i" by (simp only: assms)
    with that l show ?thesis by simp
  qed
  then show ?thesis
    unfolding active_nodes_def l by (auto intro!: filter_cong)
qed

text \<open>
  What the other coroutines do between two placements changes neither the policy nor any
  node's active flag: submitting a task, the two halves of the node loop, a completion
  report, the scheduled puts, and the stealing loop, which does nothing at all unless the
  policy is \<open>work_stealing\<close>.
\<close>

lemma other_coroutines_quiet:
  "policy (assign_task t s) = policy s \<and>
     map active (nodes (assign_task t s)) = map active (nodes s)"
  "policy (report_completion t s) = policy s \<and>
     map active (nodes (report_completion t s)) = map active (nodes s)"
  "policy (run_pending_puts s) = policy s \<and>
     map active (nodes (run_pending_puts s)) = map active (nodes s)"
  "policy (snd (node_take i s)) = policy s \<and>
     map active (nodes (snd (node_take i s))) = map active (nodes s)"
  "policy (node_complete i t now s) = policy s \<and>
     map active (nodes (node_complete i t now s)) = map active (nodes s)"
  by (simp_all add: assign_task_def report_completion_def run_pending_puts_def node_take_def
        node_complete_def Let_def map_update_same split: option.splits)

lemma stealing_loop_off: "policy s \<noteq> JStr ''work_stealing'' \<Longrightarrow> work_stealing_step s = Inr s"
  by (simp add: work_stealing_step_def)

lemma assign_step_blocked: "task_queue s = [] \<Longrightarrow> assign_step rr s = Inr (Blocked, rr, s)"
  by (simp add: assign_step_def)

lemma push_at_explicit:
  "tg < length (nodes s) \<Longrightarrow> active (nodes s ! tg) \<Longrightarrow>
   push_at tg t s = s\<lparr>nodes := (nodes s)[tg := (nodes s ! tg)\<lparr>queue := queue (nodes s ! tg) @ [t]\<rparr>]\<rparr>"
  by (simp add: push_at_def push_def)

lemma rr_step_explicit:
  assumes "policy s = JStr ''round_robin''" and "task_queue s = t # rest"
      and "active_nodes s \<noteq> []"
  shows "\<exists>tg. tg = active_nodes s ! (rr mod length (active_nodes s)) \<and>
           tg < length (nodes s) \<and> active (nodes s ! tg) \<and>
           assign_step rr s =
             Inr (Placed tg, Suc rr,
                  s\<lparr>task_queue := rest,
                    nodes := (nodes s)[tg := (nodes s ! tg)\<lparr>queue := queue (nodes s ! tg) @ [t]\<rparr>]\<rparr>)"
proof -
  let ?tg = "active_nodes s ! (rr mod length (active_nodes s))"
  have "rr mod length (active_nodes s) < length (active_nodes s)"
    using assms(3) by simp
  then have "?tg \<in> set (active_nodes s)" by (rule nth_mem)
  then have tl: "?tg < length (nodes s)" and ta: "active (nodes s ! ?tg)"
    by (simp_all add: set_active_nodes)
  have "push_at ?tg t (s\<lparr>task_queue := rest\<rparr>) =
          s\<lparr>task_queue := rest,
            nodes := (nodes s)[?tg := (nodes s ! ?tg)\<lparr>queue := queue (nodes s ! ?tg) @ [t]\<rparr>]\<rparr>"
    using tl ta by (simp add: push_at_explicit)
  with rr_step [OF assms, of rr] tl ta show ?thesis by simp
qed

lemma run_rr:
  assumes "act \<noteq> []"
      and "\<forall>f. Env f \<in> set es \<longrightarrow>
             (\<forall>x. policy (f x) = policy x \<and> map active (nodes (f x)) = map active (nodes x))"
      and "policy s = JStr ''round_robin''" and "active_nodes s = act"
  shows "\<exists>tr s'.
           run_events es rr s = Inr (tr, rr + length tr, s') \<and>
           active_nodes s' = act \<and> policy s' = JStr ''round_robin'' \<and>
           (\<forall>k<length tr.
              (\<exists>t rest b target.
                target = act ! ((rr + k) mod length act) \<and>
                task_queue b = t # rest \<and> target < length (nodes b) \<and>
                active (nodes b ! target) \<and>
                tr ! k =
                  (Placed target, b,
                   b\<lparr>task_queue := rest,
                     nodes := (nodes b)
                       [target := (nodes b ! target)\<lparr>queue := queue (nodes b ! target) @ [t]\<rparr>]\<rparr>)))"
  using assms(2-)
proof (induction es arbitrary: rr s)
  case Nil
  then show ?case by simp
next
  case (Cons e es)
  have quiet: "\<forall>f. Env f \<in> set es \<longrightarrow>
             (\<forall>x. policy (f x) = policy x \<and> map active (nodes (f x)) = map active (nodes x))"
    using Cons.prems(1) by simp
  show ?case
  proof (cases e)
    case (Env f)
    then have q: "policy (f s) = policy s" "map active (nodes (f s)) = map active (nodes s)"
      using Cons.prems(1) by simp_all
    have p: "policy (f s) = JStr ''round_robin''" using q(1) Cons.prems(2) by simp
    have a: "active_nodes (f s) = act"
      using active_nodes_cong [OF q(2)] Cons.prems(3) by simp
    have eq: "run_events (e # es) rr s = run_events es rr (f s)"
      using Env by simp
    from Cons.IH [OF quiet p a, of rr] show ?thesis
      unfolding eq .
  next
    case Dispatch
    show ?thesis
    proof (cases "task_queue s")
      case Nil
      have eq: "run_events (e # es) rr s = run_events es rr s"
        using Dispatch assign_step_blocked [OF Nil, of rr] by simp
      from Cons.IH [OF quiet Cons.prems(2,3), of rr] show ?thesis
        unfolding eq .
    next
      case tq: (Cons t rest)
      have ne: "active_nodes s \<noteq> []" using Cons.prems(3) assms(1) by simp
      from rr_step_explicit [OF Cons.prems(2) tq ne, of rr] obtain tg where
        tg: "tg = act ! (rr mod length act)" and tl: "tg < length (nodes s)" and
        ta: "active (nodes s ! tg)" and
        st: "assign_step rr s =
               Inr (Placed tg, Suc rr,
                    s\<lparr>task_queue := rest,
                      nodes := (nodes s)[tg := (nodes s ! tg)\<lparr>queue := queue (nodes s ! tg) @ [t]\<rparr>]\<rparr>)"
        using Cons.prems(3) by auto
      let ?s1 = "s\<lparr>task_queue := rest,
                     nodes := (nodes s)[tg := (nodes s ! tg)\<lparr>queue := queue (nodes s ! tg) @ [t]\<rparr>]\<rparr>"
      have p1: "policy ?s1 = JStr ''round_robin''" using Cons.prems(2) by simp
      have "map active (nodes ?s1) = map active (nodes s)"
        by (simp add: map_update_same)
      then have a1: "active_nodes ?s1 = act"
        using active_nodes_cong [of ?s1 s] Cons.prems(3) by simp
      from Cons.IH [OF quiet p1 a1, of "Suc rr"] obtain tr s' where
        run: "run_events es (Suc rr) ?s1 = Inr (tr, Suc rr + length tr, s')" and
        fin: "active_nodes s' = act" "policy s' = JStr ''round_robin''" and
        ent: "\<forall>k<length tr.
              (\<exists>t rest b target.
                target = act ! ((Suc rr + k) mod length act) \<and>
                task_queue b = t # rest \<and> target < length (nodes b) \<and>
                active (nodes b ! target) \<and>
                tr ! k =
                  (Placed target, b,
                   b\<lparr>task_queue := rest,
                     nodes := (nodes b)
                       [target := (nodes b ! target)\<lparr>queue := queue (nodes b ! target) @ [t]\<rparr>]\<rparr>))"
        by (elim exE conjE) (rule that, assumption+)
      have run': "run_events (e # es) rr s = Inr ((Placed tg, s, ?s1) # tr, rr + length ((Placed tg, s, ?s1) # tr), s')"
        using Dispatch st run by simp
      have entry: "(\<exists>t rest b target.
                target = act ! ((rr + k) mod length act) \<and>
                task_queue b = t # rest \<and> target < length (nodes b) \<and>
                active (nodes b ! target) \<and>
                ((Placed tg, s, ?s1) # tr) ! k =
                  (Placed target, b,
                   b\<lparr>task_queue := rest,
                     nodes := (nodes b)
                       [target := (nodes b ! target)\<lparr>queue := queue (nodes b ! target) @ [t]\<rparr>]\<rparr>))"
        if k: "k < length ((Placed tg, s, ?s1) # tr)" for k
      proof (cases k)
        case 0
        with tg tl ta tq show ?thesis by simp
      next
        case (Suc j)
        with k have "j < length tr" by simp
        with ent Suc show ?thesis by simp
      qed
      show ?thesis
      proof (rule exI [of _ "(Placed tg, s, ?s1) # tr"], rule exI [of _ s'], intro conjI allI impI)
        show "run_events (e # es) rr s =
                Inr ((Placed tg, s, ?s1) # tr, rr + length ((Placed tg, s, ?s1) # tr), s')"
          by (rule run')
        show "active_nodes s' = act" by (rule fin)
        show "policy s' = JStr ''round_robin''" by (rule fin)
        fix k assume "k < length ((Placed tg, s, ?s1) # tr)"
        then show "(\<exists>t rest b target.
                target = act ! ((rr + k) mod length act) \<and>
                task_queue b = t # rest \<and> target < length (nodes b) \<and>
                active (nodes b ! target) \<and>
                ((Placed tg, s, ?s1) # tr) ! k =
                  (Placed target, b,
                   b\<lparr>task_queue := rest,
                     nodes := (nodes b)
                       [target := (nodes b ! target)\<lparr>queue := queue (nodes b ! target) @ [t]\<rparr>]\<rparr>))"
          by (rule entry)
      qed
    qed
  qed
qed

lemma map_nth_filter_Suc:
  "map ((!) (t # ts)) (filter P [0..<Suc m]) =
     (if P 0 then [t] else []) @ map ((!) ts) (filter (\<lambda>k. P (Suc k)) [0..<m])"
proof -
  have "[0..<Suc m] = 0 # map Suc [0..<m]"
    by (simp add: upt_conv_Cons map_Suc_upt del: upt_Suc)
  then show ?thesis
    by (simp add: filter_map comp_def del: upt_Suc)
qed

lemma run_rr_batch:
  assumes "act \<noteq> []"
      and "policy s = JStr ''round_robin''" and "active_nodes s = act"
      and "M \<le> length (task_queue s)"
  shows "\<exists>tr. run_events (replicate M Dispatch) rr s =
                Inr (tr, rr + M,
                     s\<lparr>task_queue := drop M (task_queue s),
              nodes := map (\<lambda>i. (nodes s ! i)
                              \<lparr>queue := queue (nodes s ! i) @
                                 map ((!) (task_queue s))
                                   (filter (\<lambda>k. act ! ((rr + k) mod length (act)) = i)
                                      [0..<M])\<rparr>)
                         [0..<length (nodes s)]\<rparr>) \<and>
              length tr = M"
  using assms(2-)
proof (induction M arbitrary: rr s)
  case 0
  have "map (\<lambda>i. nodes s ! i) [0..<length (nodes s)] = nodes s" by (rule map_nth)
  then show ?case by simp
next
  case (Suc M)
  from Suc.prems(3) obtain t rest where tq: "task_queue s = t # rest"
    by (cases "task_queue s") auto
  have ne: "active_nodes s \<noteq> []" using Suc.prems(2) assms(1) by simp
  from rr_step_explicit [OF Suc.prems(1) tq ne, of rr] obtain tg where
    tg: "tg = act ! (rr mod length act)" and tl: "tg < length (nodes s)" and
    st: "assign_step rr s =
           Inr (Placed tg, Suc rr,
                s\<lparr>task_queue := rest,
                  nodes := (nodes s)[tg := (nodes s ! tg)\<lparr>queue := queue (nodes s ! tg) @ [t]\<rparr>]\<rparr>)"
    using Suc.prems(2) by auto
  let ?ns1 = "(nodes s)[tg := (nodes s ! tg)\<lparr>queue := queue (nodes s ! tg) @ [t]\<rparr>]"
  let ?s1 = "s\<lparr>task_queue := rest, nodes := ?ns1\<rparr>"
  have p1: "policy ?s1 = JStr ''round_robin''" using Suc.prems(1) by simp
  have "map active (nodes ?s1) = map active (nodes s)"
    by (simp add: map_update_same)
  then have a1: "active_nodes ?s1 = act"
    using active_nodes_cong [of ?s1 s] Suc.prems(2) by simp
  have l1: "M \<le> length (task_queue ?s1)" using Suc.prems(3) tq by simp
  let ?A = "\<lambda>i. map ((!) (task_queue ?s1))
                   (filter (\<lambda>k. act ! ((Suc rr + k) mod length act) = i) [0..<M])"
  let ?B = "\<lambda>i. map ((!) (t # rest))
                   (filter (\<lambda>k. act ! ((rr + k) mod length act) = i) [0..<Suc M])"
  from Suc.IH [OF p1 a1 l1, of "Suc rr"] obtain tr where
    run: "run_events (replicate M Dispatch) (Suc rr) ?s1 =
            Inr (tr, Suc rr + M,
                 ?s1\<lparr>task_queue := drop M (task_queue ?s1),
                     nodes := map (\<lambda>i. (nodes ?s1 ! i)\<lparr>queue := queue (nodes ?s1 ! i) @ ?A i\<rparr>)
                                [0..<length (nodes ?s1)]\<rparr>)" and
    len: "length tr = M"
    by (elim exE conjE) (rule that, assumption+)
  have B: "?B i = (if tg = i then [t] else []) @ ?A i" for i
    using map_nth_filter_Suc [of t rest "\<lambda>k. act ! ((rr + k) mod length act) = i" M]
    by (simp add: tg)
  have node: "(nodes ?s1 ! i)\<lparr>queue := queue (nodes ?s1 ! i) @ ?A i\<rparr> =
              (nodes s ! i)\<lparr>queue := queue (nodes s ! i) @ ?B i\<rparr>"
    if "i < length (nodes s)" for i
  proof (cases "i = tg")
    case True
    with tl show ?thesis unfolding B by simp
  next
    case False
    then show ?thesis unfolding B by simp
  qed
  have nodes: "map (\<lambda>i. (nodes ?s1 ! i)\<lparr>queue := queue (nodes ?s1 ! i) @ ?A i\<rparr>)
                 [0..<length (nodes ?s1)] =
               map (\<lambda>i. (nodes s ! i)\<lparr>queue := queue (nodes s ! i) @ ?B i\<rparr>)
                 [0..<length (nodes s)]"
    using node by (intro map_cong) simp_all
  have fin: "?s1\<lparr>task_queue := drop M (task_queue ?s1),
                 nodes := map (\<lambda>i. (nodes ?s1 ! i)\<lparr>queue := queue (nodes ?s1 ! i) @ ?A i\<rparr>)
                            [0..<length (nodes ?s1)]\<rparr> =
             s\<lparr>task_queue := drop (Suc M) (task_queue s),
               nodes := map (\<lambda>i. (nodes s ! i)\<lparr>queue := queue (nodes s ! i) @
                                 map ((!) (task_queue s))
                                   (filter (\<lambda>k. act ! ((rr + k) mod length act) = i)
                                      [0..<Suc M])\<rparr>)
                          [0..<length (nodes s)]\<rparr>"
    unfolding nodes by (simp add: tq)
  have "run_events (replicate (Suc M) Dispatch) rr s =
          Inr ((Placed tg, s, ?s1) # tr, rr + Suc M,
               s\<lparr>task_queue := drop (Suc M) (task_queue s),
                 nodes := map (\<lambda>i. (nodes s ! i)\<lparr>queue := queue (nodes s ! i) @
                                   map ((!) (task_queue s))
                                     (filter (\<lambda>k. act ! ((rr + k) mod length act) = i)
                                        [0..<Suc M])\<rparr>)
                            [0..<length (nodes s)]\<rparr>)"
    using st run unfolding fin [symmetric] by simp
  with len show ?case by simp
qed

text \<open>
  C6.  Under \<open>round_robin\<close>, with some node active, let the placement loop run while the
  other coroutines submit tasks, run and complete them, but neither change the policy nor
  kill or revive a node.  Then the loop never raises and the active set and the policy stay
  as they were.  The \<open>k\<close>-th task the loop takes from the ingest queue is the one at the
  head of that queue, it goes to the active node at position \<open>(rr_index + k) mod n\<close> of the
  \<open>n\<close> active nodes, and the step removes it from the ingest queue and appends that very
  task to the end of the target's queue, changing nothing else.  The index ends at
  \<open>rr_index\<close> plus the number of tasks placed, and the numbers of placements on any two
  active nodes differ by at most one.  When \<open>M\<close> tasks are waiting and the loop runs \<open>M\<close>
  times undisturbed, all \<open>M\<close> are placed: each node's queue is extended by the tasks whose
  position in the ingest queue was its turn, in order.
\<close>

theorem round_robin_balance:
  assumes "policy s = JStr ''round_robin''"
      and "\<exists>i<length (nodes s). active (nodes s ! i)"
      and "\<forall>f. Env f \<in> set es \<longrightarrow>
             (\<forall>x. policy (f x) = policy x \<and> map active (nodes (f x)) = map active (nodes x))"
  shows "\<exists>tr s'.
           run_events es rr_index s = Inr (tr, rr_index + length tr, s') \<and>
           active_nodes s' = active_nodes s \<and> policy s' = policy s \<and>
           (\<forall>k<length tr.
              (\<exists>t rest b target.
                target = active_nodes s ! ((rr_index + k) mod length (active_nodes s)) \<and>
                task_queue b = t # rest \<and> target < length (nodes b) \<and>
                active (nodes b ! target) \<and>
                tr ! k =
                  (Placed target, b,
                   b\<lparr>task_queue := rest,
                     nodes := (nodes b)
                       [target := (nodes b ! target)\<lparr>queue := queue (nodes b ! target) @ [t]\<rparr>]\<rparr>))) \<and>
           (\<forall>i<length (nodes s). \<forall>j<length (nodes s).
              active (nodes s ! i) \<and> active (nodes s ! j) \<longrightarrow>
              count_list (map fst tr) (Placed i) \<le> count_list (map fst tr) (Placed j) + 1) \<and>
           (\<forall>M. es = replicate M Dispatch \<and> M \<le> length (task_queue s) \<longrightarrow>
              length tr = M \<and>
              s' = s\<lparr>task_queue := drop M (task_queue s),
                    nodes := map (\<lambda>i. (nodes s ! i)
                              \<lparr>queue := queue (nodes s ! i) @
                                 map ((!) (task_queue s))
                                   (filter (\<lambda>k. active_nodes s !
                                        ((rr_index + k) mod length (active_nodes s)) = i)
                                      [0..<M])\<rparr>)
                         [0..<length (nodes s)]\<rparr>)"
proof -
  let ?act = "active_nodes s"
  let ?n = "length ?act"
  have ne: "?act \<noteq> []"
    using assms(2) by (auto simp: active_nodes_def filter_empty_conv)
  from run_rr [OF ne assms(3) assms(1) refl, of rr_index] obtain tr s' where
    c1: "run_events es rr_index s = Inr (tr, rr_index + length tr, s')" and
    c2: "active_nodes s' = active_nodes s" and
    p': "policy s' = JStr ''round_robin''" and
    c4: "(\<forall>k<length tr.
              (\<exists>t rest b target.
                target = active_nodes s ! ((rr_index + k) mod length (active_nodes s)) \<and>
                task_queue b = t # rest \<and> target < length (nodes b) \<and>
                active (nodes b ! target) \<and>
                tr ! k =
                  (Placed target, b,
                   b\<lparr>task_queue := rest,
                     nodes := (nodes b)
                       [target := (nodes b ! target)\<lparr>queue := queue (nodes b ! target) @ [t]\<rparr>]\<rparr>)))"
    by (elim exE conjE) (rule that, assumption+)
  have c3: "policy s' = policy s" using p' assms(1) by simp
  have fsts: "map fst tr = map (\<lambda>k. Placed (?act ! ((rr_index + k) mod ?n))) [0..<length tr]"
  proof (rule nth_equalityI)
    show "length (map fst tr) =
          length (map (\<lambda>k. Placed (?act ! ((rr_index + k) mod ?n))) [0..<length tr])"
      by simp
  next
    fix k assume "k < length (map fst tr)"
    then have k: "k < length tr" by simp
    with c4 have "\<exists>t rest b target.
                target = active_nodes s ! ((rr_index + k) mod length (active_nodes s)) \<and>
                task_queue b = t # rest \<and> target < length (nodes b) \<and>
                active (nodes b ! target) \<and>
                tr ! k =
                  (Placed target, b,
                   b\<lparr>task_queue := rest,
                     nodes := (nodes b)
                       [target := (nodes b ! target)\<lparr>queue := queue (nodes b ! target) @ [t]\<rparr>]\<rparr>)"
      by (elim allE [of _ k] impE) assumption+
    then obtain target b a where
      "target = ?act ! ((rr_index + k) mod ?n)" "tr ! k = (Placed target, b, a)"
      by (elim exE conjE) (rule that, assumption+)
    then show "map fst tr ! k =
               map (\<lambda>k. Placed (?act ! ((rr_index + k) mod ?n))) [0..<length tr] ! k"
      using k by simp
  qed
  have bal: "count_list (map fst tr) (Placed i) \<le> count_list (map fst tr) (Placed j) + 1"
    if "i < length (nodes s)" "j < length (nodes s)" "active (nodes s ! i)" "active (nodes s ! j)"
    for i j
  proof -
    from that have "i \<in> set ?act" "j \<in> set ?act"
      by (simp_all add: active_nodes_def)
    then obtain p q where p: "p < ?n" "?act ! p = i" and q: "q < ?n" "?act ! q = j"
      by (auto simp: in_set_conv_nth)
    have n: "0 < ?n" using p(1) by (cases ?act) simp_all
    have "count_list (map fst tr) (Placed i) \<le> length tr div ?n + 1"
      unfolding fsts
      using count_placed [OF active_nodes_distinct p(1), where r = rr_index and M = "length tr"] p(2)
        count_window_bounds [OF n p(1), where r = rr_index and M = "length tr"] by simp
    moreover have "length tr div ?n \<le> count_list (map fst tr) (Placed j)"
      unfolding fsts
      using count_placed [OF active_nodes_distinct q(1), where r = rr_index and M = "length tr"] q(2)
        count_window_bounds [OF n q(1), where r = rr_index and M = "length tr"] by simp
    ultimately show ?thesis by linarith
  qed
  have c5: "(\<forall>i<length (nodes s). \<forall>j<length (nodes s).
              active (nodes s ! i) \<and> active (nodes s ! j) \<longrightarrow>
              count_list (map fst tr) (Placed i) \<le> count_list (map fst tr) (Placed j) + 1)"
    using bal by blast
  have batch: "length tr = M \<and>
              s' = s\<lparr>task_queue := drop M (task_queue s),
                    nodes := map (\<lambda>i. (nodes s ! i)
                              \<lparr>queue := queue (nodes s ! i) @
                                 map ((!) (task_queue s))
                                   (filter (\<lambda>k. active_nodes s !
                                        ((rr_index + k) mod length (active_nodes s)) = i)
                                      [0..<M])\<rparr>)
                         [0..<length (nodes s)]\<rparr>"
    if M1: "es = replicate M Dispatch" and M2: "M \<le> length (task_queue s)" for M
  proof -
    from run_rr_batch [OF ne assms(1) refl M2, of rr_index] obtain tr2 where
      r2: "run_events (replicate M Dispatch) rr_index s =
             Inr (tr2, rr_index + M,
                  s\<lparr>task_queue := drop M (task_queue s),
                    nodes := map (\<lambda>i. (nodes s ! i)
                              \<lparr>queue := queue (nodes s ! i) @
                                 map ((!) (task_queue s))
                                   (filter (\<lambda>k. active_nodes s !
                                        ((rr_index + k) mod length (active_nodes s)) = i)
                                      [0..<M])\<rparr>)
                         [0..<length (nodes s)]\<rparr>)" and
      l2: "length tr2 = M"
      by (elim exE conjE) (rule that, assumption+)
    note both = trans [OF c1 [unfolded M1, symmetric] r2]
    from both have e: "(tr, rr_index + length tr, s') =
          (tr2, rr_index + M,
               s\<lparr>task_queue := drop M (task_queue s),
                    nodes := map (\<lambda>i. (nodes s ! i)
                              \<lparr>queue := queue (nodes s ! i) @
                                 map ((!) (task_queue s))
                                   (filter (\<lambda>k. active_nodes s !
                                        ((rr_index + k) mod length (active_nodes s)) = i)
                                      [0..<M])\<rparr>)
                         [0..<length (nodes s)]\<rparr>)"
      by (rule sum.inject(2) [THEN iffD1])
    from e have t: "tr = tr2" by (rule Pair_inject)
    from e have f: "s' = s\<lparr>task_queue := drop M (task_queue s),
                    nodes := map (\<lambda>i. (nodes s ! i)
                              \<lparr>queue := queue (nodes s ! i) @
                                 map ((!) (task_queue s))
                                   (filter (\<lambda>k. active_nodes s !
                                        ((rr_index + k) mod length (active_nodes s)) = i)
                                      [0..<M])\<rparr>)
                         [0..<length (nodes s)]\<rparr>"
      by (elim Pair_inject)
    have "length tr = M" using t l2 by simp
    then show ?thesis by (rule conjI) (rule f)
  qed
  have c6: "(\<forall>M. es = replicate M Dispatch \<and> M \<le> length (task_queue s) \<longrightarrow>
              length tr = M \<and>
              s' = s\<lparr>task_queue := drop M (task_queue s),
                    nodes := map (\<lambda>i. (nodes s ! i)
                              \<lparr>queue := queue (nodes s ! i) @
                                 map ((!) (task_queue s))
                                   (filter (\<lambda>k. active_nodes s !
                                        ((rr_index + k) mod length (active_nodes s)) = i)
                                      [0..<M])\<rparr>)
                         [0..<length (nodes s)]\<rparr>)"
    by (intro allI impI, elim conjE) (rule batch)
  show ?thesis
    by (rule exI [of _ tr], rule exI [of _ s'], intro conjI) (rule c1 c2 c3 c4 c5 c6)+
qed

text \<open>Witness for C6: nodes 0 and 2 active, the index at 1.  One task is submitted and the
  loop runs twice (the second time it finds the queue empty), then two more tasks are
  submitted, node 2 completes an earlier task, and the loop runs twice again.  The targets
  are 2, 0, 2, the index ends at 4, and the three tasks are in the queues of nodes 0 and 2.\<close>

theorem round_robin_balance_witness:
  "\<exists>tr s'.
     run_events
        [Env (assign_task (Task_init 1 (1/2) 100)), Dispatch, Dispatch,
         Env (assign_task (Task_init 2 (1/2) 101)), Env (assign_task (Task_init 3 (1/2) 102)),
         Env (node_complete 2 (Task_init 0 (1/2) 90) 102), Dispatch, Dispatch]
        1
        \<lparr>policy = JStr ''round_robin'',
        nodes = [Node_init 0 (12/10), (Node_init 1 1)\<lparr>active := False\<rparr>, Node_init 2 1],
        task_queue = [], pending_puts = [], migrations = 0, latencies = []\<rparr>
       = Inr (tr, 1 + length tr, s') \<and>
     map fst tr = [Placed 2, Placed 0, Placed 2] \<and>
     map queue (nodes s') =
       [[Task_init 2 (1/2) 101], [], [Task_init 1 (1/2) 100, Task_init 3 (1/2) 102]] \<and>
     task_queue s' = []"
proof -
  let ?s = "\<lparr>policy = JStr ''round_robin'',
        nodes = [Node_init 0 (12/10), (Node_init 1 1)\<lparr>active := False\<rparr>, Node_init 2 1],
        task_queue = [], pending_puts = [], migrations = 0, latencies = []\<rparr>"
  let ?es = "[Env (assign_task (Task_init 1 (1/2) 100)), Dispatch, Dispatch,
         Env (assign_task (Task_init 2 (1/2) 101)), Env (assign_task (Task_init 3 (1/2) 102)),
         Env (node_complete 2 (Task_init 0 (1/2) 90) 102), Dispatch, Dispatch]"
  have h1: "policy ?s = JStr ''round_robin''" by simp
  have h2: "\<exists>i<length (nodes ?s). active (nodes ?s ! i)"
    by (rule exI [of _ 0]) (simp add: Node_init_def)
  have h3: "\<forall>f. Env f \<in> set ?es \<longrightarrow>
             (\<forall>x. policy (f x) = policy x \<and> map active (nodes (f x)) = map active (nodes x))"
    using other_coroutines_quiet by auto
  from round_robin_balance [OF h1 h2 h3, of 1] obtain tr s' where
    r: "run_events ?es 1 ?s = Inr (tr, 1 + length tr, s')"
    by (elim exE conjE) (rule that, assumption+)
  have ev: "map_sum id (\<lambda>r. (map fst (fst r), map queue (nodes (snd (snd r))),
                             task_queue (snd (snd r))))
              (run_events ?es 1 ?s) =
            Inr ([Placed 2, Placed 0, Placed 2],
                 [[Task_init 2 (1/2) 101], [], [Task_init 1 (1/2) 100, Task_init 3 (1/2) 102]],
                 [])"
    by (simp add: assign_step_def choose_target_def active_nodes_def Let_def mod_Suc
          push_at_def push_def Node_init_def Task_init_def assign_task_def node_complete_def
          report_completion_def numeral_eq_Suc)
  from ev [unfolded r] have a:
    "map fst tr = [Placed 2, Placed 0, Placed 2]"
    "map queue (nodes s') =
       [[Task_init 2 (1/2) 101], [], [Task_init 1 (1/2) 100, Task_init 3 (1/2) 102]]"
    "task_queue s' = []"
    by simp_all
  show ?thesis
    by (rule exI [of _ tr], rule exI [of _ s'], intro conjI) (rule r a)+
qed

section \<open>Work stealing\<close>

lemma max_loop_mem: "max_loop key b xs \<in> set (b # xs)"
  by (induction xs arbitrary: b) auto

lemma max_loop_ge: "y \<in> set (b # xs) \<Longrightarrow> key y \<le> key (max_loop key b xs)"
proof (induction xs arbitrary: b y)
  case Nil
  then show ?case by simp
next
  case (Cons x xs)
  let ?b' = "if key x > key b then x else b"
  have step: "key ?b' \<le> key (max_loop key ?b' xs)"
    using Cons.IH [where y = ?b' and b = ?b'] by simp
  from Cons.prems consider "y = b" | "y = x" | "y \<in> set xs" by auto
  then show ?case
  proof cases
    case 1
    with step show ?thesis by (simp split: if_splits)
  next
    case 2
    with step show ?thesis by (simp split: if_splits)
  next
    case 3
    then show ?thesis
      using Cons.IH [where y = y and b = ?b'] by simp
  qed
qed

lemma py_max_active:
  assumes "act \<noteq> []"
  shows "\<exists>b. py_max key act = Inr b \<and> b \<in> set act \<and> (\<forall>j\<in>set act. key j \<le> key b)"
proof -
  from assms obtain x xs where e: "act = x # xs" by (cases act) auto
  show ?thesis
    unfolding e py_max_def
    using max_loop_mem [of key x xs] max_loop_ge [of _ x xs key] by auto
qed

lemma distribute_length [simp]: "length (distribute idle i ts ns) = length ns"
  by (induction ts arbitrary: i ns) simp_all

lemma distribute_other:
  "idle \<noteq> [] \<Longrightarrow> x \<notin> set idle \<Longrightarrow> distribute idle i ts ns ! x = ns ! x"
proof (induction ts arbitrary: i ns)
  case Nil
  then show ?case by simp
next
  case (Cons t ts)
  have "idle ! (i mod length idle) \<in> set idle"
    using Cons.prems(1) by simp
  with Cons.prems(2) have "idle ! (i mod length idle) \<noteq> x" by auto
  then show ?case
    using Cons.IH [OF Cons.prems] by simp
qed

lemma round_robin_indices:
  "filter (\<lambda>k. (i + k) mod n = j) [0..<Suc m] =
     (if i mod n = j then [0] else []) @ map Suc (filter (\<lambda>k. (Suc i + k) mod n = j) [0..<m])"
proof -
  have "[0..<Suc m] = 0 # map Suc [0..<m]"
    by (simp add: upt_conv_Cons map_Suc_upt del: upt_Suc)
  then show ?thesis
    by (simp add: filter_map comp_def del: upt_Suc)
qed

lemma distribute_idle:
  assumes "distinct idle" and "\<forall>x\<in>set idle. x < length ns \<and> active (ns ! x)"
      and "j < length idle"
  shows "distribute idle i ts ns ! (idle ! j) =
           (ns ! (idle ! j))\<lparr>queue := queue (ns ! (idle ! j)) @
              map ((!) ts) (filter (\<lambda>k. (i + k) mod length idle = j) [0..<length ts])\<rparr>"
  using assms(2)
proof (induction ts arbitrary: i ns)
  case Nil
  then show ?case by simp
next
  case (Cons t ts)
  let ?n = "length idle"
  let ?m = "i mod ?n"
  let ?x = "idle ! ?m"
  let ?ns1 = "ns[?x := push t (ns ! ?x)]"
  have n: "0 < ?n" using assms(3) by (cases idle) simp_all
  then have m: "?m < ?n" by simp
  then have xin: "?x \<in> set idle" by simp
  have inv1: "\<forall>y\<in>set idle. y < length ?ns1 \<and> active (?ns1 ! y)"
  proof
    fix y assume y: "y \<in> set idle"
    with Cons.prems have "y < length ns" "active (ns ! y)" by auto
    then show "y < length ?ns1 \<and> active (?ns1 ! y)"
      by (cases "y = ?x") (simp_all add: push_def)
  qed
  have ih: "distribute idle (Suc i) ts ?ns1 ! (idle ! j) =
           (?ns1 ! (idle ! j))\<lparr>queue := queue (?ns1 ! (idle ! j)) @
              map ((!) ts) (filter (\<lambda>k. (Suc i + k) mod ?n = j) [0..<length ts])\<rparr>"
    by (rule Cons.IH [OF inv1])
  have idx: "map ((!) (t # ts)) (filter (\<lambda>k. (i + k) mod ?n = j) [0..<length (t # ts)]) =
             (if ?m = j then [t] else []) @
             map ((!) ts) (filter (\<lambda>k. (Suc i + k) mod ?n = j) [0..<length ts])"
    using round_robin_indices [of i ?n j "length ts"]
    by (simp add: comp_def del: upt_Suc)
  have xl: "?x < length ns" and xa: "active (ns ! ?x)"
    using Cons.prems xin by auto
  show ?case
  proof (cases "?m = j")
    case True
    then have "?ns1 ! (idle ! j) = (ns ! (idle ! j))\<lparr>queue := queue (ns ! (idle ! j)) @ [t]\<rparr>"
      using xl xa by (simp add: push_def)
    with ih idx True show ?thesis by simp
  next
    case False
    then have "idle ! j \<noteq> ?x"
      using nth_eq_iff_index_eq [OF assms(1) assms(3) m] by auto
    then have "?ns1 ! (idle ! j) = ns ! (idle ! j)" by simp
    with ih idx False show ?thesis by simp
  qed
qed

lemma steal_busiest:
  assumes "active n" and "1 < queue_len n"
  shows "steal_tasks (max 1 (int (queue_len n) div 4)) n =
           Inr (rev (drop (queue_len n - max 1 (queue_len n div 4)) (queue n)),
                n\<lparr>queue := take (queue_len n - max 1 (queue_len n div 4)) (queue n)\<rparr>)"
proof -
  define L where "L = length (queue n)"
  define a where "a = max 1 (L div 4)"
  have L1: "1 < L" using assms(2) by (simp add: L_def queue_len_def)
  then have al: "a \<le> L - 1" unfolding a_def by (simp add: max_def) arith
  have e1: "max 1 (int L div 4) = int a"
    by (simp add: a_def max_def zdiv_int)
  have e2: "max 0 (int L - 1) = int (L - 1)" using L1 by simp
  have "steal_range (max 1 (int L div 4)) (queue n) = int a"
    unfolding steal_range_def L_def [symmetric] e1 e2 using al by simp
  then have "nat (steal_range (max 1 (int (queue_len n) div 4)) (queue n)) = max 1 (queue_len n div 4)"
    by (simp add: queue_len_def L_def [symmetric] a_def)
  then show ?thesis
    using assms(1) by (simp add: steal_tasks_eq queue_len_def)
qed

lemma idle_nodes_props:
  "x \<in> set (idle_nodes s) \<Longrightarrow>
     x \<in> set (active_nodes s) \<and> x < length (nodes s) \<and> active (nodes s ! x) \<and>
     queue (nodes s ! x) = []"
  by (auto simp: idle_nodes_def active_nodes_def queue_len_def)

text \<open>
  C4.  An iteration of the stealing loop returns the scheduler unchanged when the policy is
  not \<open>work_stealing\<close>, and also when no active node has an empty queue or no active
  node holds more than one task.  Otherwise it never raises: it picks an active node \<open>b\<close>
  of maximal queue length \<open>L > 1\<close>, takes \<open>amount = max(1, L // 4)\<close> tasks from the
  back of \<open>b\<close> (youngest first), pushes the \<open>k\<close>-th stolen task onto the idle node at
  position \<open>k mod n\<close> of the \<open>n\<close> idle active nodes, and adds the number of stolen
  tasks to the migration counter; every other node and every other field stays as it was.
\<close>

theorem work_stealing_step_spec:
  "(policy s \<noteq> JStr ''work_stealing'' \<longrightarrow> work_stealing_step s = Inr s) \<and>
   (policy s = JStr ''work_stealing'' \<and>
      \<not> (idle_nodes s \<noteq> [] \<and> (\<exists>b\<in>set (active_nodes s). 1 < queue_len (nodes s ! b))) \<longrightarrow>
      work_stealing_step s = Inr s) \<and>
   (policy s = JStr ''work_stealing'' \<and>
      idle_nodes s \<noteq> [] \<and> (\<exists>b\<in>set (active_nodes s). 1 < queue_len (nodes s ! b)) \<longrightarrow>
      (\<exists>b L amount stolen s'.
          work_stealing_step s = Inr s' \<and>
          b \<in> set (active_nodes s) \<and>
          (\<forall>j\<in>set (active_nodes s). queue_len (nodes s ! j) \<le> queue_len (nodes s ! b)) \<and>
          L = queue_len (nodes s ! b) \<and> 1 < L \<and>
          amount = max 1 (L div 4) \<and>
          stolen = rev (drop (L - amount) (queue (nodes s ! b))) \<and>
          length stolen = amount \<and>
          migrations s' = migrations s + length stolen \<and>
          length (nodes s') = length (nodes s) \<and>
          nodes s' ! b = (nodes s ! b)\<lparr>queue := take (L - amount) (queue (nodes s ! b))\<rparr> \<and>
          (\<forall>j<length (idle_nodes s).
              nodes s' ! (idle_nodes s ! j) =
                (nodes s ! (idle_nodes s ! j))
                  \<lparr>queue := map ((!) stolen)
                     (filter (\<lambda>k. k mod length (idle_nodes s) = j) [0..<length stolen])\<rparr>) \<and>
          (\<forall>i<length (nodes s). i \<noteq> b \<and> i \<notin> set (idle_nodes s) \<longrightarrow> nodes s' ! i = nodes s ! i) \<and>
          policy s' = policy s \<and> task_queue s' = task_queue s \<and>
          pending_puts s' = pending_puts s \<and> latencies s' = latencies s))"
proof (intro conjI impI)
  assume "policy s \<noteq> JStr ''work_stealing''"
  then show "work_stealing_step s = Inr s"
    by (simp add: work_stealing_step_def)
next
  assume a: "policy s = JStr ''work_stealing'' \<and>
      \<not> (idle_nodes s \<noteq> [] \<and> (\<exists>b\<in>set (active_nodes s). 1 < queue_len (nodes s ! b)))"
  show "work_stealing_step s = Inr s"
  proof (cases "active_nodes s = []")
    case True
    with a show ?thesis by (simp add: work_stealing_step_def)
  next
    case False
    from py_max_active [OF False, of "\<lambda>i. queue_len (nodes s ! i)"] obtain b where
      pm: "py_max (\<lambda>i. queue_len (nodes s ! i)) (active_nodes s) = Inr b" and
      bm: "b \<in> set (active_nodes s)"
      by blast
    from a bm have "idle_nodes s = [] \<or> \<not> 1 < queue_len (nodes s ! b)" by blast
    with a False pm show ?thesis
      by (auto simp: work_stealing_step_def Let_def)
  qed
next
  assume a: "policy s = JStr ''work_stealing'' \<and>
      idle_nodes s \<noteq> [] \<and> (\<exists>b\<in>set (active_nodes s). 1 < queue_len (nodes s ! b))"
  then have pol: "policy s = JStr ''work_stealing''" and idle: "idle_nodes s \<noteq> []"
    and big: "\<exists>b\<in>set (active_nodes s). 1 < queue_len (nodes s ! b)" by blast+
  from big have ne: "active_nodes s \<noteq> []" by auto
  from py_max_active [OF ne, of "\<lambda>i. queue_len (nodes s ! i)"] obtain b where
    pm: "py_max (\<lambda>i. queue_len (nodes s ! i)) (active_nodes s) = Inr b" and
    bm: "b \<in> set (active_nodes s)" and
    bmax: "\<forall>j\<in>set (active_nodes s). queue_len (nodes s ! j) \<le> queue_len (nodes s ! b)"
    by blast
  define L where "L = queue_len (nodes s ! b)"
  define amount where "amount = max 1 (L div 4)"
  define stolen where "stolen = rev (drop (L - amount) (queue (nodes s ! b)))"
  define b' where "b' = (nodes s ! b)\<lparr>queue := take (L - amount) (queue (nodes s ! b))\<rparr>"
  define ns where "ns = (nodes s)[b := b']"
  define s' where "s' = s\<lparr>nodes := distribute (idle_nodes s) 0 stolen ns,
                             migrations := migrations s + length stolen\<rparr>"
  from big bmax have L1: "1 < L" unfolding L_def by fastforce
  from bm have bl: "b < length (nodes s)" and ba: "active (nodes s ! b)"
    by (simp_all add: active_nodes_def)
  have am: "amount \<le> L" "1 \<le> amount"
    using L1 by (simp_all add: amount_def)
  have ls: "length stolen = amount"
    using am by (simp add: stolen_def L_def queue_len_def)
  then have sne: "stolen \<noteq> []" using am by auto
  have st: "steal_tasks (max 1 (int (queue_len (nodes s ! b)) div 4)) (nodes s ! b) = Inr (stolen, b')"
    using steal_busiest [OF ba] L1
    by (simp add: L_def stolen_def b'_def amount_def)
  have step: "work_stealing_step s = Inr s'"
    using pol ne pm idle L1 st sne
    by (simp add: work_stealing_step_def Let_def L_def s'_def ns_def)
  have bnot: "b \<notin> set (idle_nodes s)"
    using L1 idle_nodes_props [of b s] by (auto simp: L_def queue_len_def)
  have inv: "\<forall>x\<in>set (idle_nodes s). x < length ns \<and> active (ns ! x)"
  proof
    fix x assume x: "x \<in> set (idle_nodes s)"
    with bnot have "x \<noteq> b" by auto
    with idle_nodes_props [OF x] show "x < length ns \<and> active (ns ! x)"
      by (simp add: ns_def)
  qed
  have dist: "distinct (idle_nodes s)"
    by (simp add: idle_nodes_def active_nodes_def)
  have nb: "nodes s' ! b = b'"
    using distribute_other [OF idle bnot, of 0 stolen ns] bl
    by (simp add: s'_def ns_def)
  have nidle: "nodes s' ! (idle_nodes s ! j) =
                (nodes s ! (idle_nodes s ! j))
                  \<lparr>queue := map ((!) stolen)
                     (filter (\<lambda>k. k mod length (idle_nodes s) = j) [0..<length stolen])\<rparr>"
    if j: "j < length (idle_nodes s)" for j
  proof -
    from j have mem: "idle_nodes s ! j \<in> set (idle_nodes s)" by simp
    with bnot have neq: "idle_nodes s ! j \<noteq> b" by auto
    have e: "ns ! (idle_nodes s ! j) = nodes s ! (idle_nodes s ! j)"
      using neq by (simp add: ns_def)
    show ?thesis
      using distribute_idle [OF dist inv j, of 0 stolen] idle_nodes_props [OF mem]
      by (simp add: s'_def e)
  qed
  have nother: "nodes s' ! i = nodes s ! i"
    if "i < length (nodes s)" "i \<noteq> b" "i \<notin> set (idle_nodes s)" for i
    using distribute_other [OF idle that(3), of 0 stolen ns] that(2)
    by (simp add: s'_def ns_def)
  show "\<exists>b L amount stolen s'.
          work_stealing_step s = Inr s' \<and>
          b \<in> set (active_nodes s) \<and>
          (\<forall>j\<in>set (active_nodes s). queue_len (nodes s ! j) \<le> queue_len (nodes s ! b)) \<and>
          L = queue_len (nodes s ! b) \<and> 1 < L \<and>
          amount = max 1 (L div 4) \<and>
          stolen = rev (drop (L - amount) (queue (nodes s ! b))) \<and>
          length stolen = amount \<and>
          migrations s' = migrations s + length stolen \<and>
          length (nodes s') = length (nodes s) \<and>
          nodes s' ! b = (nodes s ! b)\<lparr>queue := take (L - amount) (queue (nodes s ! b))\<rparr> \<and>
          (\<forall>j<length (idle_nodes s).
              nodes s' ! (idle_nodes s ! j) =
                (nodes s ! (idle_nodes s ! j))
                  \<lparr>queue := map ((!) stolen)
                     (filter (\<lambda>k. k mod length (idle_nodes s) = j) [0..<length stolen])\<rparr>) \<and>
          (\<forall>i<length (nodes s). i \<noteq> b \<and> i \<notin> set (idle_nodes s) \<longrightarrow> nodes s' ! i = nodes s ! i) \<and>
          policy s' = policy s \<and> task_queue s' = task_queue s \<and>
          pending_puts s' = pending_puts s \<and> latencies s' = latencies s"
  proof (rule exI [of _ b], rule exI [of _ L], rule exI [of _ amount], rule exI [of _ stolen],
      rule exI [of _ s'], intro conjI)
    show "work_stealing_step s = Inr s'" by (rule step)
    show "b \<in> set (active_nodes s)" by (rule bm)
    show "\<forall>j\<in>set (active_nodes s). queue_len (nodes s ! j) \<le> queue_len (nodes s ! b)"
      by (rule bmax)
    show "L = queue_len (nodes s ! b)" by (rule L_def)
    show "1 < L" by (rule L1)
    show "amount = max 1 (L div 4)" by (rule amount_def)
    show "stolen = rev (drop (L - amount) (queue (nodes s ! b)))" by (rule stolen_def)
    show "length stolen = amount" by (rule ls)
    show "migrations s' = migrations s + length stolen" by (simp add: s'_def)
    show "length (nodes s') = length (nodes s)" by (simp add: s'_def ns_def)
    show "nodes s' ! b = (nodes s ! b)\<lparr>queue := take (L - amount) (queue (nodes s ! b))\<rparr>"
      using nb by (simp add: b'_def)
    show "\<forall>j<length (idle_nodes s).
              nodes s' ! (idle_nodes s ! j) =
                (nodes s ! (idle_nodes s ! j))
                  \<lparr>queue := map ((!) stolen)
                     (filter (\<lambda>k. k mod length (idle_nodes s) = j) [0..<length stolen])\<rparr>"
      using nidle by blast
    show "\<forall>i<length (nodes s). i \<noteq> b \<and> i \<notin> set (idle_nodes s) \<longrightarrow> nodes s' ! i = nodes s ! i"
      using nother by blast
    show "policy s' = policy s" by (simp add: s'_def)
    show "task_queue s' = task_queue s" by (simp add: s'_def)
    show "pending_puts s' = pending_puts s" by (simp add: s'_def)
    show "latencies s' = latencies s" by (simp add: s'_def)
  qed
qed

text \<open>Witness for C4: node 0 holds eight tasks, nodes 1 and 3 are idle, node 2 is down;
  two tasks move, the youngest to node 1 and the next to node 3.\<close>

theorem work_stealing_step_spec_witness:
  "work_stealing_step
     \<lparr>policy = JStr ''work_stealing'',
      nodes = [(Node_init 0 (12/10))
                 \<lparr>queue := map (\<lambda>i. Task_init i (1/2) 100) [1, 2, 3, 4, 5, 6, 7, 8]\<rparr>,
               Node_init 1 1,
               (Node_init 2 1)\<lparr>active := False\<rparr>,
               Node_init 3 1],
      task_queue = [], pending_puts = [], migrations = 5, latencies = []\<rparr>
   = Inr
     \<lparr>policy = JStr ''work_stealing'',
      nodes = [(Node_init 0 (12/10))
                 \<lparr>queue := map (\<lambda>i. Task_init i (1/2) 100) [1, 2, 3, 4, 5, 6]\<rparr>,
               (Node_init 1 1)\<lparr>queue := [Task_init 8 (1/2) 100]\<rparr>,
               (Node_init 2 1)\<lparr>active := False\<rparr>,
               (Node_init 3 1)\<lparr>queue := [Task_init 7 (1/2) 100]\<rparr>],
      task_queue = [], pending_puts = [], migrations = 7, latencies = []\<rparr>"
proof -
  let ?s = "\<lparr>policy = JStr ''work_stealing'',
      nodes = [(Node_init 0 (12/10))
                 \<lparr>queue := map (\<lambda>i. Task_init i (1/2) 100) [1, 2, 3, 4, 5, 6, 7, 8]\<rparr>,
               Node_init 1 1,
               (Node_init 2 1)\<lparr>active := False\<rparr>,
               Node_init 3 1],
      task_queue = [], pending_puts = [], migrations = 5, latencies = []\<rparr>"
  let ?s' = "\<lparr>policy = JStr ''work_stealing'',
      nodes = [(Node_init 0 (12/10))
                 \<lparr>queue := map (\<lambda>i. Task_init i (1/2) 100) [1, 2, 3, 4, 5, 6]\<rparr>,
               (Node_init 1 1)\<lparr>queue := [Task_init 8 (1/2) 100]\<rparr>,
               (Node_init 2 1)\<lparr>active := False\<rparr>,
               (Node_init 3 1)\<lparr>queue := [Task_init 7 (1/2) 100]\<rparr>],
      task_queue = [], pending_puts = [], migrations = 7, latencies = []\<rparr>"
  have e: "work_stealing_step ?s = Inr ?s'"
    by code_simp
  have h: "policy ?s = JStr ''work_stealing'' \<and> idle_nodes ?s \<noteq> [] \<and>
           (\<exists>b\<in>set (active_nodes ?s). 1 < queue_len (nodes ?s ! b))"
    by code_simp
  note c = work_stealing_step_spec [of ?s, THEN conjunct2, THEN conjunct2, THEN mp, OF h]
  from c obtain s' where "work_stealing_step ?s = Inr s'"
    by blast
  with e show ?thesis by simp
qed

section \<open>Snapshots\<close>

lemma py_round_nonneg: "0 \<le> x \<Longrightarrow> 0 \<le> py_round x nd"
proof -
  assume "0 \<le> x"
  then have "0 \<le> round_half_even (x * 10 ^ nd)"
    using round_half_even_lower [of 0 "x * 10 ^ nd"] by simp
  then have "0 \<le> (of_int (round_half_even (x * 10 ^ nd)) :: real) / 10 ^ nd" by simp
  then show ?thesis
    unfolding py_round_def by (rule binary64_nonneg)
qed

lemma py_round_zero [simp]: "py_round 0 nd = 0"
  using round_half_even_of_int [of 0] by (simp add: py_round_def)

lemma py_round_1_le_100: "x \<le> 100 \<Longrightarrow> py_round x 1 \<le> 100"
proof -
  assume "x \<le> 100"
  then have "x * 10 ^ 1 \<le> of_int 1000" by simp
  then have "round_half_even (x * 10 ^ 1) \<le> 1000" by (rule round_half_even_upper)
  then have "(of_int (round_half_even (x * 10 ^ 1)) :: real) \<le> 1000" by linarith
  then have "(of_int (round_half_even (x * 10 ^ 1)) :: real) / 10 ^ 1 \<le> 100" by simp
  then show ?thesis
    unfolding py_round_def by (rule binary64_le_100)
qed

lemma p95_index_lt: "0 < n \<Longrightarrow> nat \<lfloor>real n * (95/100)\<rfloor> < n"
proof -
  assume n: "0 < n"
  then have "real n * (95/100) < of_int (int n)" by simp
  then have "\<lfloor>real n * (95/100)\<rfloor> < int n" by (simp only: floor_less_iff)
  moreover have "0 \<le> \<lfloor>real n * (95/100)\<rfloor>" by simp
  ultimately show ?thesis by linarith
qed

lemma busy_le_active:
  "length (filter (\<lambda>n. active n \<and> busy n) ns) \<le> length (filter active ns)"
  by (induction ns) auto

lemma recent_lats_nonempty: "recent_lats s \<noteq> []"
  by (cases "latencies s") (simp_all add: recent_lats_def)

lemma snapshot_eq:
  "snapshot now g s =
     Inr (\<lparr>timestamp = now,
           snap_policy = policy s,
           queue_lengths = map queue_len (nodes s),
           node_status = map active (nodes s),
           snap_completed = map completed (nodes s),
           snap_migrations = migrations s,
           avg_latency =
             py_round (binary64 (sum_list (recent_lats s) / real (length (recent_lats s)))) 3,
           p95_latency =
             py_round (sort (recent_lats s) ! nat \<lfloor>real (length (recent_lats s)) * (95/100)\<rfloor>) 3,
           utilization =
             py_round (if 0 < length (filter active (nodes s))
                       then binary64
                              (binary64 (real (length (filter (\<lambda>n. active n \<and> busy n) (nodes s))) /
                                         real (length (filter active (nodes s)))) * 100)
                       else 0) 1,
           snap_recording = recording g,
           snap_scenario_active = scenario_active g\<rparr>, s)"
proof -
  have ne: "recent_lats s \<noteq> []" by (rule recent_lats_nonempty)
  then have "0 < length (recent_lats s)" by simp
  then have idx: "nat \<lfloor>real (length (recent_lats s)) * (95/100)\<rfloor> < length (sort (recent_lats s))"
    using p95_index_lt [of "length (recent_lats s)"] by simp
  have m: "mean (recent_lats s) =
             Inr (binary64 (sum_list (recent_lats s) / real (length (recent_lats s))))"
    using ne by (simp add: mean_def)
  have li: "list_index (sort (recent_lats s)) (nat \<lfloor>real (length (recent_lats s)) * (95/100)\<rfloor>) =
            Inr (sort (recent_lats s) ! nat \<lfloor>real (length (recent_lats s)) * (95/100)\<rfloor>)"
    using idx unfolding list_index_def by (simp only: if_True)
  show ?thesis
    unfolding snapshot_def Let_def using ne
    by (simp only: m li if_True not_False_eq_True sum.case simp_thms)
qed

lemma recent_lats_set: "latencies s \<noteq> [] \<Longrightarrow> set (recent_lats s) \<subseteq> set (latencies s)"
  by (simp add: recent_lats_def set_drop_subset)

lemma recent_lats_nonneg:
  assumes "\<forall>x\<in>set (latencies s). 0 \<le> x"
  shows "\<forall>x\<in>set (recent_lats s). 0 \<le> x"
proof (cases "latencies s = []")
  case True
  then show ?thesis by (simp add: recent_lats_def)
next
  case False
  with assms recent_lats_set [OF False] show ?thesis by blast
qed

lemma utilization_range:
  fixes b a :: nat
  assumes "b \<le> a"
  shows "0 \<le> (if 0 < a then binary64 (binary64 (real b / real a) * 100) else 0) \<and>
         (if 0 < a then binary64 (binary64 (real b / real a) * 100) else 0) \<le> 100"
proof (cases "0 < a")
  case True
  then have q: "0 \<le> real b / real a" "real b / real a \<le> 1" using assms by simp_all
  have r0: "0 \<le> binary64 (real b / real a)" by (rule binary64_nonneg [OF q(1)])
  have r1: "binary64 (real b / real a) \<le> 1" by (rule binary64_le_1 [OF q(2)])
  from r0 have "0 \<le> binary64 (real b / real a) * 100" by simp
  then have lo: "0 \<le> binary64 (binary64 (real b / real a) * 100)" by (rule binary64_nonneg)
  from r1 have "binary64 (real b / real a) * 100 \<le> 100" by simp
  then have hi: "binary64 (binary64 (real b / real a) * 100) \<le> 100" by (rule binary64_le_100)
  from lo hi True show ?thesis by (simp only: if_True simp_thms)
next
  case False
  then show ?thesis by simp
qed

text \<open>
  C8 (as amended).  \<open>snapshot\<close> never raises and returns the scheduler it was given.
  Its \<open>avg_latency\<close> is the mean of the last at most 50 recorded latencies rounded to 3
  decimals, its \<open>p95_latency\<close> is the element at index \<open>floor(0.95 * len)\<close> of those
  latencies after sorting, rounded to 3 decimals (the index is always in range), and both are
  0 when nothing is recorded; its \<open>utilization\<close> is \<open>busy_active / total_active * 100\<close>
  rounded to 1 decimal, and 0 when no node is active; all of it in float arithmetic.  The
  three per-node arrays have the length of the fleet, the utilization lies between 0 and
  100, and the two latency figures are nonnegative whenever every recorded latency is.
\<close>

theorem snapshot_spec:
  "\<exists>snap.
     snapshot now g s = Inr (snap, s) \<and>
     (latencies s = [] \<longrightarrow> avg_latency snap = 0 \<and> p95_latency snap = 0) \<and>
     (latencies s \<noteq> [] \<longrightarrow>
        length (drop (length (latencies s) - 50) (latencies s)) = min 50 (length (latencies s)) \<and>
        avg_latency snap =
          py_round (binary64 (sum_list (drop (length (latencies s) - 50) (latencies s)) / real (length (drop (length (latencies s) - 50) (latencies s))))) 3 \<and>
        nat \<lfloor>real (length (drop (length (latencies s) - 50) (latencies s))) * (95/100)\<rfloor> < length (drop (length (latencies s) - 50) (latencies s)) \<and>
        p95_latency snap =
          py_round (sort (drop (length (latencies s) - 50) (latencies s)) ! nat \<lfloor>real (length (drop (length (latencies s) - 50) (latencies s))) * (95/100)\<rfloor>) 3) \<and>
     (length (filter active (nodes s)) = 0 \<longrightarrow> utilization snap = 0) \<and>
     (0 < length (filter active (nodes s)) \<longrightarrow>
        utilization snap =
          py_round (binary64
                      (binary64 (real (length (filter (\<lambda>n. active n \<and> busy n) (nodes s))) /
                                 real (length (filter active (nodes s)))) * 100)) 1) \<and>
     length (queue_lengths snap) = length (nodes s) \<and>
     length (node_status snap) = length (nodes s) \<and>
     length (snap_completed snap) = length (nodes s) \<and>
     0 \<le> utilization snap \<and> utilization snap \<le> 100 \<and>
     ((\<forall>x\<in>set (latencies s). 0 \<le> x) \<longrightarrow> 0 \<le> avg_latency snap \<and> 0 \<le> p95_latency snap)"
proof -
  define snap where "snap = \<lparr>timestamp = now,
           snap_policy = policy s,
           queue_lengths = map queue_len (nodes s),
           node_status = map active (nodes s),
           snap_completed = map completed (nodes s),
           snap_migrations = migrations s,
           avg_latency =
             py_round (binary64 (sum_list (recent_lats s) / real (length (recent_lats s)))) 3,
           p95_latency =
             py_round (sort (recent_lats s) ! nat \<lfloor>real (length (recent_lats s)) * (95/100)\<rfloor>) 3,
           utilization =
             py_round (if 0 < length (filter active (nodes s))
                       then binary64
                              (binary64 (real (length (filter (\<lambda>n. active n \<and> busy n) (nodes s))) /
                                         real (length (filter active (nodes s)))) * 100)
                       else 0) 1,
           snap_recording = recording g,
           snap_scenario_active = scenario_active g\<rparr>"
  let ?r = "recent_lats s"
  let ?i = "nat \<lfloor>real (length ?r) * (95/100)\<rfloor>"
  let ?u = "if 0 < length (filter active (nodes s))
            then binary64
                   (binary64 (real (length (filter (\<lambda>n. active n \<and> busy n) (nodes s))) /
                              real (length (filter active (nodes s)))) * 100)
            else 0"
  have ne: "?r \<noteq> []" by (rule recent_lats_nonempty)
  then have idx: "?i < length ?r"
    using p95_index_lt [of "length ?r"] by simp
  have res: "snapshot now g s = Inr (snap, s)"
    unfolding snap_def by (rule snapshot_eq)
  have avg: "avg_latency snap = py_round (binary64 (sum_list ?r / real (length ?r))) 3"
    and p95: "p95_latency snap = py_round (sort ?r ! ?i) 3"
    and ut: "utilization snap = py_round ?u 1"
    by (simp_all add: snap_def)
  have empty: "avg_latency snap = 0 \<and> p95_latency snap = 0" if "latencies s = []"
    using that unfolding avg p95 by (simp add: recent_lats_def)
  have nonempty: "?r = drop (length (latencies s) - 50) (latencies s)" if "latencies s \<noteq> []"
    using that by (simp add: recent_lats_def)
  have ur: "0 \<le> ?u \<and> ?u \<le> 100"
    by (rule utilization_range [OF busy_le_active])
  have u0: "0 \<le> utilization snap"
    unfolding ut using ur by (intro py_round_nonneg) simp
  have u100: "utilization snap \<le> 100"
    unfolding ut using ur by (intro py_round_1_le_100) simp
  have nn: "0 \<le> avg_latency snap \<and> 0 \<le> p95_latency snap"
    if a: "\<forall>x\<in>set (latencies s). 0 \<le> x"
  proof -
    have all: "\<forall>x\<in>set ?r. 0 \<le> x" by (rule recent_lats_nonneg [OF a])
    then have "0 \<le> sum_list ?r" by (simp add: sum_list_nonneg)
    then have "0 \<le> sum_list ?r / real (length ?r)" by simp
    then have "0 \<le> binary64 (sum_list ?r / real (length ?r))" by (rule binary64_nonneg)
    then have 1: "0 \<le> avg_latency snap"
      unfolding avg by (rule py_round_nonneg)
    have "sort ?r ! ?i \<in> set (sort ?r)"
      using idx by (intro nth_mem) simp
    then have "0 \<le> sort ?r ! ?i" using all by simp
    then have "0 \<le> p95_latency snap"
      unfolding p95 by (rule py_round_nonneg)
    with 1 show ?thesis by simp
  qed
  have lens: "length (queue_lengths snap) = length (nodes s)"
      "length (node_status snap) = length (nodes s)"
      "length (snap_completed snap) = length (nodes s)"
    by (simp_all add: snap_def)
  have ne_part: "length (drop (length (latencies s) - 50) (latencies s)) = min 50 (length (latencies s)) \<and>
        avg_latency snap =
          py_round (binary64 (sum_list (drop (length (latencies s) - 50) (latencies s)) / real (length (drop (length (latencies s) - 50) (latencies s))))) 3 \<and>
        nat \<lfloor>real (length (drop (length (latencies s) - 50) (latencies s))) * (95/100)\<rfloor> < length (drop (length (latencies s) - 50) (latencies s)) \<and>
        p95_latency snap =
          py_round (sort (drop (length (latencies s) - 50) (latencies s)) ! nat \<lfloor>real (length (drop (length (latencies s) - 50) (latencies s))) * (95/100)\<rfloor>) 3"
    if "latencies s \<noteq> []"
  proof -
    have l: "length (drop (length (latencies s) - 50) (latencies s)) = min 50 (length (latencies s))"
      by (simp add: min_def)
    show ?thesis
      using avg p95 idx l unfolding nonempty [OF that] by blast
  qed
  have uz: "utilization snap = 0" if "length (filter active (nodes s)) = 0"
    unfolding ut using that by simp
  have up: "utilization snap =
          py_round (binary64
                      (binary64 (real (length (filter (\<lambda>n. active n \<and> busy n) (nodes s))) /
                                 real (length (filter active (nodes s)))) * 100)) 1"
    if "0 < length (filter active (nodes s))"
    unfolding ut using that by (simp only: if_True)
  show ?thesis
    using res empty ne_part uz up lens u0 u100 nn by (intro exI [of _ snap]) blast
qed

text \<open>
  Witness for C8: three latencies with mean 1 and 95th percentile 3/2, and 23 busy nodes in
  a fleet of 80 active ones, where the float utilization rounds to 28.7.
\<close>

theorem snapshot_spec_witness:
  "map_sum id (\<lambda>r. (avg_latency (fst r), p95_latency (fst r), utilization (fst r),
                        length (queue_lengths (fst r))))
     (snapshot 1000 \<lparr>recording = False, scenario_active = False\<rparr>
        \<lparr>policy = JStr ''least_loaded'',
         nodes = map (\<lambda>i. (Node_init i 1)\<lparr>busy := i < 23\<rparr>) [0..<80],
         task_queue = [], pending_puts = [], migrations = 0, latencies = [1/2, 3/2, 1]\<rparr>)
   = Inr (1, 3/2, binary64 (287/10), 80)"
proof -
  let ?s = "\<lparr>policy = JStr ''least_loaded'',
         nodes = map (\<lambda>i. (Node_init i 1)\<lparr>busy := i < 23\<rparr>) [0..<80],
         task_queue = [], pending_puts = [], migrations = 0, latencies = [1/2, 3/2, 1]\<rparr>"
  let ?g = "\<lparr>recording = False, scenario_active = False\<rparr>"
  have a: "length (filter active (nodes ?s)) = 80"
    by code_simp
  have b: "length (filter (\<lambda>n. active n \<and> busy n) (nodes ?s)) = 23"
    by code_simp
  have r: "recent_lats ?s = [1/2, 3/2, 1]"
    by (simp add: recent_lats_def)
  have avg: "py_round (binary64 (sum_list [1/2, 3/2, 1] / real (length [1/2, 3/2, 1::real]))) 3 = 1"
    by (simp add: py_round_def round_half_even_def Let_def)
  have p95: "py_round (sort [1/2, 3/2, 1] ! nat \<lfloor>real (length [1/2, 3/2, 1::real]) * (95/100)\<rfloor>) 3
             = 3/2"
    by (simp add: py_round_def round_half_even_def Let_def)
  have ut: "py_round (binary64 (binary64 (real (23::nat) / real (80::nat)) * 100)) 1
            = binary64 (287/10)"
    by (simp add: py_round_def binary64_23_80_100 round_half_even_def Let_def)
  from snapshot_spec [of 1000 ?g ?s] obtain snap where
    res: "snapshot 1000 ?g ?s = Inr (snap, ?s)" and
    ne: "latencies ?s \<noteq> [] \<longrightarrow>
         avg_latency snap =
           py_round (binary64 (sum_list (drop (length (latencies ?s) - 50) (latencies ?s)) /
                     real (length (drop (length (latencies ?s) - 50) (latencies ?s))))) 3 \<and>
         p95_latency snap =
           py_round (sort (drop (length (latencies ?s) - 50) (latencies ?s)) !
             nat \<lfloor>real (length (drop (length (latencies ?s) - 50) (latencies ?s))) * (95/100)\<rfloor>) 3" and
    up: "0 < length (filter active (nodes ?s)) \<longrightarrow>
         utilization snap =
           py_round (binary64
                      (binary64 (real (length (filter (\<lambda>n. active n \<and> busy n) (nodes ?s))) /
                                 real (length (filter active (nodes ?s)))) * 100)) 1" and
    len: "length (queue_lengths snap) = length (nodes ?s)"
    by blast
  from ne have "avg_latency snap = 1" "p95_latency snap = 3/2"
    using avg p95 by simp_all
  moreover from up have "utilization snap = binary64 (287/10)"
    unfolding a b using ut by simp
  moreover from len have "length (queue_lengths snap) = 80" by simp
  ultimately show ?thesis
    by (simp add: res)
qed

text \<open>
  Counterexample to C8 as stated: the wall clock is set back one second between the
  creation and the completion of a task; the recorded latency is -1 and both latency
  figures of the snapshot are negative.
\<close>

theorem snapshot_negative_counterexample:
  "latencies (report_completion ((Task_init 1 (1/2) 1000)\<lparr>completed_at := Some 999\<rparr>) (Scheduler_init 4 (JStr ''work_stealing''))) = [- 1] \<and>
   map_sum id (\<lambda>r. (avg_latency (fst r), p95_latency (fst r)))
     (snapshot 1000 \<lparr>recording = False, scenario_active = False\<rparr> (report_completion ((Task_init 1 (1/2) 1000)\<lparr>completed_at := Some 999\<rparr>) (Scheduler_init 4 (JStr ''work_stealing'')))) = Inr (- 1, - 1)"
proof -
  have l: "latencies (report_completion ((Task_init 1 (1/2) 1000)\<lparr>completed_at := Some 999\<rparr>) (Scheduler_init 4 (JStr ''work_stealing''))) = [- 1]"
    by (simp add: report_completion_def Task_init_def Scheduler_init_def)
  have r: "recent_lats (report_completion ((Task_init 1 (1/2) 1000)\<lparr>completed_at := Some 999\<rparr>) (Scheduler_init 4 (JStr ''work_stealing''))) = [- 1]"
    unfolding recent_lats_def l by simp
  have avg: "py_round (binary64 (sum_list [- 1] / real (length [- 1::real]))) 3 = - 1"
    by (simp add: py_round_def round_half_even_def Let_def)
  have p95: "py_round (sort [- 1] ! nat \<lfloor>real (length [- 1::real]) * (95/100)\<rfloor>) 3 = - 1"
    by (simp add: py_round_def round_half_even_def Let_def)
  show ?thesis
    unfolding snapshot_eq r l using avg p95 by simp
qed

text \<open>
  C10.  \<open>snapshot\<close> never raises, and the scheduler after the call is the scheduler
  before it: the policy, every node's queue, busy flag, active flag and completed count, the
  migration counter and the latency window are unchanged.
\<close>

theorem snapshot_read_only:
  "\<exists>snap s'.
     snapshot now g s = Inr (snap, s') \<and> s' = s \<and>
     policy s' = policy s \<and>
     map queue (nodes s') = map queue (nodes s) \<and>
     map busy (nodes s') = map busy (nodes s) \<and>
     map active (nodes s') = map active (nodes s) \<and>
     map completed (nodes s') = map completed (nodes s) \<and>
     migrations s' = migrations s \<and>
     latencies s' = latencies s"
  using snapshot_eq [of now g s] by blast

text \<open>
  Witness for C10: a snapshot of a scheduler with a queued task, a busy node and a node
  that is down.
\<close>

theorem snapshot_read_only_witness:
  "map_sum id snd
     (snapshot 1000 \<lparr>recording = True, scenario_active = False\<rparr>
        \<lparr>policy = JStr ''round_robin'',
         nodes = [(Node_init 0 (12/10))\<lparr>queue := [Task_init 4 (1/2) 990], busy := True\<rparr>,
                  (Node_init 1 1)\<lparr>active := False\<rparr>],
         task_queue = [Task_init 5 (1/2) 995], pending_puts = [], migrations = 2,
         latencies = [3/4]\<rparr>)
   = Inr \<lparr>policy = JStr ''round_robin'',
         nodes = [(Node_init 0 (12/10))\<lparr>queue := [Task_init 4 (1/2) 990], busy := True\<rparr>,
                  (Node_init 1 1)\<lparr>active := False\<rparr>],
         task_queue = [Task_init 5 (1/2) 995], pending_puts = [], migrations = 2,
         latencies = [3/4]\<rparr>"
proof -
  let ?s = "\<lparr>policy = JStr ''round_robin'',
         nodes = [(Node_init 0 (12/10))\<lparr>queue := [Task_init 4 (1/2) 990], busy := True\<rparr>,
                  (Node_init 1 1)\<lparr>active := False\<rparr>],
         task_queue = [Task_init 5 (1/2) 995], pending_puts = [], migrations = 2,
         latencies = [3/4]\<rparr>"
  from snapshot_read_only [of 1000 "\<lparr>recording = True, scenario_active = False\<rparr>" ?s]
  obtain snap where "snapshot 1000 \<lparr>recording = True, scenario_active = False\<rparr> ?s = Inr (snap, ?s)"
    by blast
  then show ?thesis by simp
qed

section \<open>Command frames\<close>

text \<open>
  C5 (as amended).  Let a frame decode to a JSON object.  When its \<open>cmd\<close> is missing
  or is none of the nine verbs, and when it is a \<open>kill\<close> or \<open>revive\<close> whose
  \<open>id\<close> converts to an integer outside \<open>0..N-1\<close>, the handler leaves the whole
  state unchanged and goes on to the next frame.  A \<open>policy\<close> frame is not validated:
  its \<open>val\<close>, whatever it is, becomes the policy.
\<close>

theorem malformed_frames_ignored:
  assumes "loads m = Inr (JObj d)"
  shows
   "(dict_get d ''cmd'' \<notin> {JStr ''burst'', JStr ''policy'', JStr ''kill'', JStr ''revive'',
        JStr ''toggle_record'', JStr ''start_scenario'', JStr ''hello'', JStr ''download'',
        JStr ''set_rate''} \<longrightarrow>
       on_message loads int_of_str float_of_str m w = Inr w \<and>
       message_loop loads int_of_str float_of_str (m # ms) w =
         message_loop loads int_of_str float_of_str ms w) \<and>
    ((dict_get d ''cmd'' = JStr ''kill'' \<or> dict_get d ''cmd'' = JStr ''revive'') \<and>
      py_int int_of_str (dict_get d ''id'') = Inr i \<and>
      \<not> (0 \<le> i \<and> i < int (length (nodes (global_scheduler w)))) \<longrightarrow>
       on_message loads int_of_str float_of_str m w = Inr w \<and>
       message_loop loads int_of_str float_of_str (m # ms) w =
         message_loop loads int_of_str float_of_str ms w) \<and>
    (dict_get d ''cmd'' = JStr ''policy'' \<longrightarrow>
       on_message loads int_of_str float_of_str m w =
         Inr (w\<lparr>global_scheduler := (global_scheduler w)\<lparr>policy := dict_get d ''val''\<rparr>\<rparr>))"
proof (intro conjI impI)
  assume u: "dict_get d ''cmd'' \<notin> {JStr ''burst'', JStr ''policy'', JStr ''kill'', JStr ''revive'',
        JStr ''toggle_record'', JStr ''start_scenario'', JStr ''hello'', JStr ''download'',
        JStr ''set_rate''}"
  show a: "on_message loads int_of_str float_of_str m w = Inr w"
    using assms u by (simp add: on_message_def Let_def)
  show "message_loop loads int_of_str float_of_str (m # ms) w =
         message_loop loads int_of_str float_of_str ms w"
    by (simp add: a)
next
  assume k: "(dict_get d ''cmd'' = JStr ''kill'' \<or> dict_get d ''cmd'' = JStr ''revive'') \<and>
      py_int int_of_str (dict_get d ''id'') = Inr i \<and>
      \<not> (0 \<le> i \<and> i < int (length (nodes (global_scheduler w))))"
  then have same: "kill_node i (global_scheduler w) = global_scheduler w"
      "revive_node i (global_scheduler w) = global_scheduler w"
    by (auto simp: kill_node_def revive_node_def)
  show a: "on_message loads int_of_str float_of_str m w = Inr w"
    using assms k same by (auto simp: on_message_def Let_def)
  show "message_loop loads int_of_str float_of_str (m # ms) w =
         message_loop loads int_of_str float_of_str ms w"
    by (simp add: a)
next
  assume "dict_get d ''cmd'' = JStr ''policy''"
  then show "on_message loads int_of_str float_of_str m w =
         Inr (w\<lparr>global_scheduler := (global_scheduler w)\<lparr>policy := dict_get d ''val''\<rparr>\<rparr>)"
    using assms by (simp add: on_message_def Let_def)
qed

text \<open>
  Counterexample to C5 as stated: a \<open>policy\<close> frame with the unknown value
  \<open>fastest\<close> changes the policy; and after a frame that \<open>json.loads\<close> rejects, the
  exception leaves the loop, so the \<open>burst\<close> frame behind it is never read.
\<close>

theorem unknown_policy_counterexample:
  "on_message (\<lambda>m. Inr (JObj [(''cmd'', JStr ''policy''), (''val'', JStr ''fastest'')]))
       (\<lambda>x. None) (\<lambda>x. None) ''frame'' main_init
     = Inr (main_init\<lparr>global_scheduler := (global_scheduler main_init)\<lparr>policy := JStr ''fastest''\<rparr>\<rparr>) \<and>
   policy (global_scheduler main_init) \<noteq> JStr ''fastest'' \<and>
   message_loop
       (\<lambda>m. if m = ''burst'' then Inr (JObj [(''cmd'', JStr ''burst'')]) else Inl JSONDecodeError)
       (\<lambda>x. None) (\<lambda>x. None) [''bad'', ''burst''] main_init
     = ([''burst''], main_init)"
  by (simp add: on_message_def dict_get_def main_init_def Scheduler_init_def)

text \<open>
  Witness for C5: an object without \<open>cmd\<close> followed by a kill of node 9 in a fleet of
  four; both are read, neither changes anything.
\<close>

theorem malformed_frames_ignored_witness:
  "message_loop
       (\<lambda>m. if m = ''noverb'' then Inr (JObj [(''foo'', JInt 1)])
             else if m = ''kill9'' then Inr (JObj [(''cmd'', JStr ''kill''), (''id'', JInt 9)])
             else Inl JSONDecodeError)
       (\<lambda>x. None) (\<lambda>x. None) [''noverb'', ''kill9''] main_init
     = ([], main_init)"
proof -
  let ?loads = "(\<lambda>m. if m = ''noverb'' then Inr (JObj [(''foo'', JInt 1)])
             else if m = ''kill9'' then Inr (JObj [(''cmd'', JStr ''kill''), (''id'', JInt 9)])
             else Inl JSONDecodeError)"
  have s1: "message_loop ?loads (\<lambda>x. None) (\<lambda>x. None) [''noverb'', ''kill9''] main_init =
            message_loop ?loads (\<lambda>x. None) (\<lambda>x. None) [''kill9''] main_init"
    using malformed_frames_ignored [where loads = "?loads" and m = "''noverb''"
        and d = "[(''foo'', JInt 1)]" and int_of_str = "\<lambda>x. None"
        and float_of_str = "\<lambda>x. None" and w = main_init and ms = "[''kill9'']" and i = 0]
    by (simp add: dict_get_def)
  have s2: "message_loop ?loads (\<lambda>x. None) (\<lambda>x. None) [''kill9''] main_init =
            message_loop ?loads (\<lambda>x. None) (\<lambda>x. None) [] main_init"
    using malformed_frames_ignored [where loads = "?loads" and m = "''kill9''"
        and d = "[(''cmd'', JStr ''kill''), (''id'', JInt 9)]" and int_of_str = "\<lambda>x. None"
        and float_of_str = "\<lambda>x. None" and w = main_init and ms = "[]" and i = 9]
    by (simp add: dict_get_def py_int_def main_init_def Scheduler_init_def)
  show ?thesis
    unfolding s1 s2 by simp
qed

end
